theory Spec2Isabelle
  imports Complex_Main "HOL-Library.Word"
begin

unbundle bit_operations_syntax

section \<open>Codec\<close>

text \<open>
  Samples are modelled as reals. A Float32 sample has a 24-bit significand, so its product
  with \<open>0x8000\<close> or \<open>0x7fff\<close> is exact in the doubles JavaScript computes with, and
  \<open>int16 / 32768\<close> is exact in Float32: on finite samples the real-number model computes
  what the code computes. NaN samples are outside the model.
\<close>

type_synonym int16 = "16 word"
type_synonym byte = "8 word"
type_synonym frame = "real list"

text \<open>Storing a number into an \<open>Int16Array\<close>: truncation towards zero, then modulo \<open>2^16\<close>.\<close>

definition js_trunc :: "real \<Rightarrow> int" where
  "js_trunc x = (if x < 0 then - \<lfloor>- x\<rfloor> else \<lfloor>x\<rfloor>)"

definition toInt16 :: "real \<Rightarrow> int16" where
  "toInt16 x = word_of_int (js_trunc x)"

text \<open>
  \<open>AudioRecorderProcessor._convertToInt16\<close> (src/lib/audio-recorder.ts), one pass of its
  loop and the whole loop:
  \<^verbatim>\<open>const s = Math.max(-1, Math.min(1, float32Buffer[i]));
  int16Buffer[i] = s < 0 ? s * 0x8000 : s * 0x7fff;\<close>
\<close>

definition convertSample :: "real \<Rightarrow> int16" where
  "convertSample x =
     (let s = max (- 1) (min 1 x)
      in toInt16 (if s < 0 then s * 32768 else s * 32767))"

definition convertToInt16 :: "frame \<Rightarrow> int16 list" where
  "convertToInt16 float32Buffer = map convertSample float32Buffer"

text \<open>
  \<open>int16Buffer.buffer\<close>: the bytes behind the \<open>Int16Array\<close>, which the worklet posts. The
  platform's byte order is little-endian, the order the playback side reads with
  \<open>getInt16(_, true)\<close>.
\<close>

definition int16Bytes :: "int16 \<Rightarrow> byte list" where
  "int16Bytes w = [ucast w, ucast (drop_bit 8 w)]"

definition int16arrayBuffer :: "int16 list \<Rightarrow> byte list" where
  "int16arrayBuffer ws = concat (map int16Bytes ws)"

text \<open>\<open>dataView.getInt16(i * 2, true)\<close> on the two bytes at that offset.\<close>

definition getInt16 :: "byte \<Rightarrow> byte \<Rightarrow> int" where
  "getInt16 lo hi = sint (word_cat hi lo :: int16)"

text \<open>
  \<open>AudioStreamer._processPCM16Chunk\<close>. The chunk is a \<open>Uint8Array\<close> over a buffer of its
  own (its caller passes \<open>new Uint8Array(audioData)\<close>). The result has
  \<open>chunk.length / 2\<close> samples, the length truncated by the typed-array constructor; on a
  chunk of odd length the last pass of the loop reads beyond the buffer, \<open>getInt16\<close>
  raises, and the \<open>catch\<close> inside the loop logs the error and goes on. The function
  returns the samples; the console messages it logs are returned beside them.
\<close>

fun pcm16Samples :: "byte list \<Rightarrow> frame" where
  "pcm16Samples (lo # hi # rest) = (real_of_int (getInt16 lo hi) / 32768) # pcm16Samples rest"
| "pcm16Samples _ = []"

definition processPCM16Chunk :: "byte list \<Rightarrow> frame \<times> string list" where
  "processPCM16Chunk chunk =
     (pcm16Samples chunk,
      if odd (length chunk) then [''Error processing PCM chunk:''] else [])"

section \<open>Base64 transport payloads\<close>

datatype js_error =
    InvalidCharacterError
  | TypeError
  | NotSupportedError
  | NotAllowedError
  | NotFoundError
  | InvalidStateError
  | Error string

text \<open>A JavaScript string is a sequence of UTF-16 code units.\<close>

type_synonym js_string = "nat list"

definition js :: "string \<Rightarrow> js_string" where
  "js s = map of_char s"

text \<open>
  \<open>atob\<close> is the platform's: the forgiving-base64 decode of the HTML standard. It removes
  ASCII whitespace, removes one or two trailing \<open>=\<close> when the length is a multiple of 4,
  fails when the length is then 1 modulo 4 or a code unit is outside the base64 alphabet,
  and decodes 6 bits per code unit, discarding the 2 or 4 bits left over at the end. Its
  result is a binary string: every code unit is a byte.
\<close>

definition isAsciiWhitespace :: "nat \<Rightarrow> bool" where
  "isAsciiWhitespace c = (c = 9 \<or> c = 10 \<or> c = 12 \<or> c = 13 \<or> c = 32)"

definition base64Index :: "nat \<Rightarrow> nat option" where
  "base64Index c =
     (if 65 \<le> c \<and> c \<le> 90 then Some (c - 65)
      else if 97 \<le> c \<and> c \<le> 122 then Some (c - 71)
      else if 48 \<le> c \<and> c \<le> 57 then Some (c + 4)
      else if c = 43 then Some 62
      else if c = 47 then Some 63
      else None)"

definition stripPadding :: "js_string \<Rightarrow> js_string" where
  "stripPadding d =
     (if length d mod 4 = 0 \<and> d \<noteq> [] \<and> last d = 61
      then (if butlast d \<noteq> [] \<and> last (butlast d) = 61 then butlast (butlast d) else butlast d)
      else d)"

fun decodeSextets :: "nat list \<Rightarrow> js_string" where
  "decodeSextets (a # b # c # d # rest) =
     (let n = ((a * 64 + b) * 64 + c) * 64 + d
      in [n div 65536, n div 256 mod 256, n mod 256] @ decodeSextets rest)"
| "decodeSextets [a, b, c] = (let n = ((a * 64 + b) * 64 + c) div 4 in [n div 256, n mod 256])"
| "decodeSextets [a, b] = [(a * 64 + b) div 16]"
| "decodeSextets _ = []"

definition atob :: "js_string \<Rightarrow> js_error + js_string" where
  "atob data =
     (let d = stripPadding (filter (\<lambda>c. \<not> isAsciiWhitespace c) data)
      in if length d mod 4 = 1 then Inl InvalidCharacterError
         else (case those (map base64Index d) of
                 None \<Rightarrow> Inl InvalidCharacterError
               | Some sextets \<Rightarrow> Inr (decodeSextets sextets)))"

text \<open>
  \<open>base64ToArrayBuffer\<close> (src/lib/audio-utils.ts). The decoder is a parameter, so what is
  proved holds for every platform's \<open>atob\<close>. The body of the \<open>try\<close> is
  \<open>base64ToArrayBuffer_try\<close>: \<open>bytes[i] = binaryString.charCodeAt(i)\<close> stores a code unit
  into a \<open>Uint8Array\<close>, modulo 256. The \<open>catch\<close> logs and returns \<open>new ArrayBuffer(0)\<close>.
\<close>

definition base64ToArrayBuffer_try ::
  "(js_string \<Rightarrow> js_error + js_string) \<Rightarrow> js_string \<Rightarrow> js_error + byte list" where
  "base64ToArrayBuffer_try decoder base64 =
     (case decoder base64 of
        Inl e \<Rightarrow> Inl e
      | Inr binaryString \<Rightarrow> Inr (map word_of_nat binaryString))"

definition base64ToArrayBuffer ::
  "(js_string \<Rightarrow> js_error + js_string) \<Rightarrow> js_string \<Rightarrow> js_error + byte list" where
  "base64ToArrayBuffer decoder base64 =
     (case base64ToArrayBuffer_try decoder base64 of
        Inl error \<Rightarrow> Inr []
      | Inr buffer \<Rightarrow> Inr buffer)"

section \<open>Playback: the AudioStreamer\<close>

text \<open>
  Times are seconds of the audio clock, as reals. \<open>context.currentTime\<close> is an input of
  every operation (\<open>now\<close>) and has one value during a call. The private fields
  \<open>sampleRate\<close>, \<open>bufferSize\<close> and \<open>initialBufferTime\<close> are never assigned after their
  initialisers and are constants here; \<open>retryCount\<close> and \<open>maxRetries\<close> are fields.
\<close>

definition sampleRate :: nat where
  "sampleRate = 24000"

definition bufferSize :: nat where
  "bufferSize = 7680"

definition initialBufferTime :: real where
  "initialBufferTime = 1 / 10"

definition SCHEDULE_AHEAD_TIME :: real where
  "SCHEDULE_AHEAD_TIME = 2 / 10"

text \<open>
  What the platform does during one pass of the scheduling loop: every call succeeds, or
  building the source raises (\<open>createBuffer\<close>, \<open>createBufferSource\<close>, \<open>connect\<close>: outside
  the inner \<open>try\<close>), or \<open>source.start\<close> raises (inside it). An operation takes the list of
  the outcomes of the passes it will make; beyond the list every pass succeeds.
\<close>

datatype outcome = Succeeds | BuildThrows | StartThrows

definition nextOutcome :: "outcome list \<Rightarrow> outcome" where
  "nextOutcome os = (case os of [] \<Rightarrow> Succeeds | oc # _ \<Rightarrow> oc)"

text \<open>A buffer source that was started: \<open>source.start(startTime)\<close> returned.\<close>

record bufferSource =
  startTime :: real
  scheduledAt :: real
  audioData :: frame
  destination :: nat

text \<open>
  The fields of the class, then what it has done to the platform: the sources it started,
  the \<open>setTimeout\<close> callbacks it has pending (the delays of those that call
  \<open>scheduleNextBuffer\<close>, the number of those that rebuild the gain node), the fades it
  ramped and what it wrote with \<open>console.error\<close>. \<open>checkInterval\<close> is whether an interval
  is set; a gain node is the number of its creation.
\<close>

record audioStreamer =
  audioQueue :: "frame list"
  isPlaying :: bool
  isStreamComplete :: bool
  checkInterval :: bool
  scheduledTime :: real
  gainNode :: nat
  retryCount :: nat
  maxRetries :: nat
  nodesCreated :: nat
  started :: "bufferSource list"
  timeouts :: "real list"
  rebuilds :: nat
  fades :: "(nat \<times> real) list"
  consoleErrors :: "string list"

definition createGain :: "audioStreamer \<Rightarrow> audioStreamer" where
  "createGain s = s\<lparr>gainNode := nodesCreated s, nodesCreated := Suc (nodesCreated s)\<rparr>"

text \<open>The constructor: a gain node (0) and an analyser (1).\<close>

definition AudioStreamer_new :: audioStreamer where
  "AudioStreamer_new =
     \<lparr>audioQueue = [], isPlaying = False, isStreamComplete = False, checkInterval = False,
      scheduledTime = 0, gainNode = 0, retryCount = 0, maxRetries = 3, nodesCreated = 2,
      started = [], timeouts = [], rebuilds = 0, fades = [], consoleErrors = []\<rparr>"

text \<open>
  The framing of \<open>addPCM16\<close>: the \<open>while\<close> loop that cuts \<open>bufferSize\<close> samples off the
  front, and the \<open>if\<close> that pushes what remains.
\<close>

function pushFrames :: "frame list \<Rightarrow> frame \<Rightarrow> frame list" where
  "pushFrames queue processingBuffer =
     (if length processingBuffer \<ge> bufferSize
      then pushFrames (queue @ [take bufferSize processingBuffer]) (drop bufferSize processingBuffer)
      else if length processingBuffer > 0 then queue @ [processingBuffer]
      else queue)"
  by pat_completeness auto
termination
  by (relation "measure (\<lambda>(queue, processingBuffer). length processingBuffer)")
    (auto simp: bufferSize_def)

declare pushFrames.simps [simp del]

text \<open>
  One pass of the \<open>while\<close> loop of \<open>scheduleNextBuffer\<close>. \<open>createBuffer\<close> raises
  NotSupportedError for a buffer of no samples. When \<open>source.start\<close> raises, the frame
  that was shifted off the queue is gone and the clock is moved ahead.
\<close>

definition scheduleOne :: "real \<Rightarrow> outcome \<Rightarrow> audioStreamer \<Rightarrow> js_error option \<times> audioStreamer" where
  "scheduleOne now oc s =
     (case audioQueue s of
        [] \<Rightarrow> (Some TypeError, s)
      | data # rest \<Rightarrow>
          (let s1 = s\<lparr>audioQueue := rest\<rparr>
           in if data = [] \<or> oc = BuildThrows then (Some NotSupportedError, s1)
              else
                (let start = max (scheduledTime s1) now
                 in if oc = StartThrows
                    then (None, s1\<lparr>scheduledTime := now + 1 / 10,
                                   consoleErrors := consoleErrors s1 @ [''Error starting audio source:'']\<rparr>)
                    else (None, s1\<lparr>started := started s1 @
                                      [\<lparr>startTime = start, scheduledAt = now, audioData = data,
                                        destination = gainNode s1\<rparr>],
                                    scheduledTime := start + real (length data) / real sampleRate\<rparr>))))"

lemma scheduleOne_queue: "audioQueue (snd (scheduleOne now oc s)) = tl (audioQueue s)"
  by (simp add: scheduleOne_def Let_def split: list.splits)

function scheduleLoop ::
  "real \<Rightarrow> outcome list \<Rightarrow> audioStreamer \<Rightarrow> js_error option \<times> outcome list \<times> audioStreamer" where
  "scheduleLoop now os s =
     (if audioQueue s \<noteq> [] \<and> scheduledTime s < now + SCHEDULE_AHEAD_TIME
      then (case fst (scheduleOne now (nextOutcome os) s) of
              Some e \<Rightarrow> (Some e, tl os, snd (scheduleOne now (nextOutcome os) s))
            | None \<Rightarrow> scheduleLoop now (tl os) (snd (scheduleOne now (nextOutcome os) s)))
      else (None, os, s))"
  by pat_completeness auto
termination
  by (relation "measure (\<lambda>(now, os, s). length (audioQueue s))")
    (auto simp: scheduleOne_queue)

declare scheduleLoop.simps [simp del]

text \<open>
  \<open>scheduleNextBuffer\<close>: the loop, then the timers. An exception leaves through the loop
  and skips the timers.
\<close>

definition scheduleNextBuffer ::
  "real \<Rightarrow> outcome list \<Rightarrow> audioStreamer \<Rightarrow> js_error option \<times> outcome list \<times> audioStreamer" where
  "scheduleNextBuffer now os s =
     (case scheduleLoop now os s of
        (Some e, os', s') \<Rightarrow> (Some e, os', s')
      | (None, os', s') \<Rightarrow>
          (None, os',
           if audioQueue s' = []
           then (if isStreamComplete s'
                 then s'\<lparr>isPlaying := False, checkInterval := False\<rparr>
                 else s'\<lparr>checkInterval := True\<rparr>)
           else s'\<lparr>timeouts := timeouts s' @ [max 0 ((scheduledTime s' - now) * 1000 - 50)]\<rparr>))"

text \<open>\<open>stop\<close>: the fade is ramped on the current gain node; the rebuild waits in a timer.\<close>

definition stop :: "real \<Rightarrow> audioStreamer \<Rightarrow> audioStreamer" where
  "stop now s =
     s\<lparr>isPlaying := False, isStreamComplete := True, audioQueue := [], scheduledTime := now,
       checkInterval := False, fades := fades s @ [(gainNode s, now + 1 / 10)],
       rebuilds := Suc (rebuilds s)\<rparr>"

definition resume :: "real \<Rightarrow> audioStreamer \<Rightarrow> audioStreamer" where
  "resume now s = s\<lparr>isStreamComplete := False, scheduledTime := now + initialBufferTime\<rparr>"

definition maxRecoveryMessage :: string where
  "maxRecoveryMessage = ''Max recovery attempts reached, audio playback may be unstable''"

text \<open>\<open>attemptRecovery\<close>. An exception of its \<open>scheduleNextBuffer\<close> leaves through it.\<close>

definition attemptRecovery ::
  "real \<Rightarrow> outcome list \<Rightarrow> audioStreamer \<Rightarrow> js_error option \<times> outcome list \<times> audioStreamer" where
  "attemptRecovery now os s =
     (let s1 = s\<lparr>retryCount := Suc (retryCount s)\<rparr>
      in if retryCount s1 \<le> maxRetries s1
         then
           (let s2 = createGain (stop now s1);
                s3 = s2\<lparr>isPlaying := False, isStreamComplete := False,
                        scheduledTime := now + initialBufferTime\<rparr>
            in if length (audioQueue s3) > 0
               then scheduleNextBuffer now os (s3\<lparr>isPlaying := True\<rparr>)
               else (None, os, s3))
         else (None, os, s1\<lparr>consoleErrors := consoleErrors s1 @ [maxRecoveryMessage]\<rparr>))"

text \<open>
  \<open>addPCM16\<close>. Resuming a suspended context changes nothing that is modelled. The \<open>catch\<close>
  logs and calls \<open>attemptRecovery\<close>; the result is the exception that leaves \<open>addPCM16\<close>,
  if one does, the outcomes not used and the streamer.
\<close>

definition addPCM16 ::
  "real \<Rightarrow> outcome list \<Rightarrow> byte list \<Rightarrow> audioStreamer \<Rightarrow> js_error option \<times> outcome list \<times> audioStreamer" where
  "addPCM16 now os chunk s =
     (let s0 = s\<lparr>isStreamComplete := False\<rparr>;
          processingBuffer = fst (processPCM16Chunk chunk);
          s1 = s0\<lparr>consoleErrors := consoleErrors s0 @ snd (processPCM16Chunk chunk),
                  audioQueue := pushFrames (audioQueue s0) processingBuffer\<rparr>
      in if \<not> isPlaying s1
         then (case scheduleNextBuffer now os
                      (s1\<lparr>isPlaying := True, scheduledTime := now + initialBufferTime\<rparr>) of
                 (Some e, os', s') \<Rightarrow>
                   attemptRecovery now os'
                     (s'\<lparr>consoleErrors := consoleErrors s' @ [''Error adding PCM16 data:'']\<rparr>)
               | (None, os', s') \<Rightarrow> (None, os', s'))
         else (None, os, s1))"

text \<open>
  The timers. A \<open>setTimeout\<close> callback of \<open>scheduleNextBuffer\<close> runs once; the interval's
  callback runs while the interval is set; the callback of \<open>stop\<close> replaces the gain node.
  An exception that leaves a callback is reported by the platform and changes nothing more.
\<close>

datatype timer = Timeout | Interval | GainRebuild

definition fire :: "real \<Rightarrow> outcome list \<Rightarrow> timer \<Rightarrow> audioStreamer \<Rightarrow> audioStreamer" where
  "fire now os t s =
     (case t of
        Timeout \<Rightarrow>
          (if timeouts s = [] then s
           else snd (snd (scheduleNextBuffer now os (s\<lparr>timeouts := tl (timeouts s)\<rparr>))))
      | Interval \<Rightarrow>
          (if checkInterval s \<and> length (audioQueue s) > 0
           then snd (snd (scheduleNextBuffer now os s)) else s)
      | GainRebuild \<Rightarrow>
          (if rebuilds s = 0 then s else createGain (s\<lparr>rebuilds := rebuilds s - 1\<rparr>)))"

text \<open>What happens to a streamer: a call of its interface or a timer, at a time, with outcomes.\<close>

datatype event = AddPCM16 "byte list" | Stop | Resume | Fire timer

definition step :: "real \<times> outcome list \<times> event \<Rightarrow> audioStreamer \<Rightarrow> audioStreamer" where
  "step e s =
     (case e of
        (now, os, AddPCM16 chunk) \<Rightarrow> snd (snd (addPCM16 now os chunk s))
      | (now, os, Stop) \<Rightarrow> stop now s
      | (now, os, Resume) \<Rightarrow> resume now s
      | (now, os, Fire t) \<Rightarrow> fire now os t s)"

fun run :: "(real \<times> outcome list \<times> event) list \<Rightarrow> audioStreamer \<Rightarrow> audioStreamer" where
  "run [] s = s"
| "run (e # es) s = run es (step e s)"

text \<open>The frames handed to playback so far, then the frames still queued.\<close>

definition playlist :: "audioStreamer \<Rightarrow> frame list" where
  "playlist s = map audioData (started s) @ audioQueue s"

section \<open>Capture: the AudioRecorder\<close>

text \<open>
  \<open>start\<close> is asynchronous: its promise's executor runs up to the first \<open>await\<close> inside the
  call and goes on, one \<open>await\<close> at a time, when the platform settles what it waits for.
  JavaScript runs one job at a time, so a run of the recorder is a sequence of calls
  (\<open>start\<close>, \<open>stop\<close>) and settlements (\<open>continue\<close>). An executor waits at one of four places.
\<close>

datatype await_point = AwaitUserMedia | AwaitAudioContext | AwaitRecorderModule | AwaitVuModule

datatype settlement = Fulfilled | Rejected js_error

text \<open>
  The promise of one call of \<open>start\<close>: where its executor waits (\<open>None\<close> once it has
  finished), how it settled, and how many \<open>handleStop\<close> callbacks \<open>stop\<close> has attached
  with \<open>then\<close>.
\<close>

record startPromise =
  waitsAt :: "await_point option"
  settled :: "settlement option"
  reactions :: nat

text \<open>
  The fields of the class, then the platform: the promises of the calls of \<open>start\<close>, the
  calls of \<open>getUserMedia\<close>, the streams whose tracks are live, the streams whose tracks
  were stopped, and the runs of \<open>handleStop\<close>. A stream is its number; \<open>source\<close> is the
  stream it was created from, \<open>sourceOutputs\<close> the nodes it is connected to.
\<close>

record audioRecorder =
  stream :: "nat option"
  audioContext :: bool
  source :: "nat option"
  sourceOutputs :: nat
  recording :: bool
  recordingWorklet :: bool
  vuWorklet :: bool
  starting :: "nat option"
  promises :: "startPromise list"
  getUserMediaCalls :: nat
  liveTracks :: "nat list"
  stoppedTracks :: "nat list"
  teardowns :: nat

definition AudioRecorder_new :: audioRecorder where
  "AudioRecorder_new =
     \<lparr>stream = None, audioContext = False, source = None, sourceOutputs = 0, recording = False,
      recordingWorklet = False, vuWorklet = False, starting = None, promises = [],
      getUserMediaCalls = 0, liveTracks = [], stoppedTracks = [], teardowns = 0\<rparr>"

text \<open>
  The call \<open>start()\<close>, up to its \<open>return\<close>: the two checks, whose \<open>throw\<close> rejects the promise
  the async function returns, then the new promise, whose executor calls \<open>getUserMedia\<close>
  and waits. The result is the rejection or the number of the pending promise.
\<close>

definition AudioRecorder_start ::
  "bool \<Rightarrow> bool \<Rightarrow> audioRecorder \<Rightarrow> (js_error + nat) \<times> audioRecorder" where
  "AudioRecorder_start hasWindow hasUserMedia r =
     (if \<not> hasWindow
      then (Inl (Error ''Cannot access media devices in server-side rendering''), r)
      else if \<not> hasUserMedia then (Inl (Error ''Could not request user media''), r)
      else (Inr (length (promises r)),
            r\<lparr>promises := promises r @ [\<lparr>waitsAt = Some AwaitUserMedia, settled = None, reactions = 0\<rparr>],
              getUserMediaCalls := Suc (getUserMediaCalls r),
              starting := Some (length (promises r))\<rparr>))"

text \<open>\<open>handleStop\<close>, the closure of \<open>stop\<close>.\<close>

definition handleStop :: "audioRecorder \<Rightarrow> audioRecorder" where
  "handleStop r =
     r\<lparr>sourceOutputs := 0,
       liveTracks := (case stream r of None \<Rightarrow> liveTracks r | Some sid \<Rightarrow> removeAll sid (liveTracks r)),
       stoppedTracks := (case stream r of None \<Rightarrow> stoppedTracks r | Some sid \<Rightarrow> stoppedTracks r @ [sid]),
       stream := None, recordingWorklet := False, vuWorklet := False, recording := False,
       teardowns := Suc (teardowns r)\<rparr>"

text \<open>
  \<open>stop\<close>. While a \<open>start\<close> is in flight, \<open>handleStop\<close> is attached to its promise;
  \<open>starting\<close> always names a promise that was made, so the last branch is never taken.
\<close>

definition AudioRecorder_stop :: "audioRecorder \<Rightarrow> audioRecorder" where
  "AudioRecorder_stop r =
     (case starting r of
        Some p \<Rightarrow>
          (if p < length (promises r)
           then r\<lparr>promises := (promises r)
                  [p := (promises r ! p)\<lparr>reactions := Suc (reactions (promises r ! p))\<rparr>]\<rparr>
           else r)
      | None \<Rightarrow> handleStop r)"

text \<open>
  The end of an executor: \<open>resolve()\<close> or \<open>reject(error)\<close>, the \<open>finally\<close> that clears
  \<open>starting\<close>, and the callbacks attached with \<open>then\<close>, which run when the promise is
  fulfilled and not when it is rejected.
\<close>

definition finish :: "nat \<Rightarrow> settlement \<Rightarrow> audioRecorder \<Rightarrow> audioRecorder" where
  "finish p res r =
     (let n = reactions (promises r ! p);
          r1 = r\<lparr>promises := (promises r)[p := \<lparr>waitsAt = None, settled = Some res, reactions = 0\<rparr>],
                 starting := None\<rparr>
      in if res = Fulfilled then (handleStop ^^ n) r1 else r1)"

definition waitAt :: "nat \<Rightarrow> await_point \<Rightarrow> audioRecorder \<Rightarrow> audioRecorder" where
  "waitAt p a r = r\<lparr>promises := (promises r)[p := (promises r ! p)\<lparr>waitsAt := Some a\<rparr>]\<rparr>"

text \<open>
  What an executor waits for settles: with a value (for \<open>getUserMedia\<close> the stream) or with
  an error, which the \<open>catch\<close> passes to \<open>reject\<close>. \<open>createMediaStreamSource\<close> raises
  TypeError when \<open>this.stream\<close> is undefined.
\<close>

datatype awaited = Resolves nat | Rejects js_error

definition continue :: "nat \<Rightarrow> awaited \<Rightarrow> audioRecorder \<Rightarrow> audioRecorder" where
  "continue p a r =
     (if p < length (promises r)
      then (case waitsAt (promises r ! p) of
              None \<Rightarrow> r
            | Some w \<Rightarrow>
                (case a of
                   Rejects e \<Rightarrow> finish p (Rejected e) r
                 | Resolves v \<Rightarrow>
                     (case w of
                        AwaitUserMedia \<Rightarrow>
                          waitAt p AwaitAudioContext (r\<lparr>stream := Some v, liveTracks := liveTracks r @ [v]\<rparr>)
                      | AwaitAudioContext \<Rightarrow>
                          (case stream r of
                             None \<Rightarrow> finish p (Rejected TypeError) (r\<lparr>audioContext := True\<rparr>)
                           | Some sid \<Rightarrow>
                               waitAt p AwaitRecorderModule
                                 (r\<lparr>audioContext := True, source := Some sid, sourceOutputs := 0\<rparr>))
                      | AwaitRecorderModule \<Rightarrow>
                          waitAt p AwaitVuModule
                            (r\<lparr>recordingWorklet := True, sourceOutputs := Suc (sourceOutputs r)\<rparr>)
                      | AwaitVuModule \<Rightarrow>
                          finish p Fulfilled
                            (r\<lparr>vuWorklet := True, sourceOutputs := Suc (sourceOutputs r),
                               recording := True\<rparr>))))
      else r)"

section \<open>Runs, observations and predicates\<close>

text \<open>A started source is not in the past: its start time is not before the clock it was scheduled at.\<close>

definition notInPast :: "bufferSource \<Rightarrow> bool" where
  "notInPast b = (scheduledAt b \<le> startTime b)"

text \<open>From \<open>s\<close> to \<open>s'\<close> sources were only added to those started, none of them in the past.\<close>

definition schedulesAhead :: "audioStreamer \<Rightarrow> audioStreamer \<Rightarrow> bool" where
  "schedulesAhead s s' = (\<exists>new. started s' = started s @ new \<and> list_all notInPast new)"

text \<open>From \<open>s\<close> to \<open>s'\<close>, at the time \<open>now\<close>, the scheduled clock was left alone or set no earlier than \<open>now\<close>.\<close>

definition clockAhead :: "real \<Rightarrow> audioStreamer \<Rightarrow> audioStreamer \<Rightarrow> bool" where
  "clockAhead now s s' = (scheduledTime s' = scheduledTime s \<or> now \<le> scheduledTime s')"

text \<open>Timers that fire one after another, each at its time with its outcomes.\<close>

fun fires :: "(real \<times> outcome list \<times> timer) list \<Rightarrow> audioStreamer \<Rightarrow> audioStreamer" where
  "fires [] s = s"
| "fires ((now, os, t) # ts) s = fires ts (fire now os t s)"


text \<open>\<open>k\<close> failures in a row, as \<open>attemptRecovery\<close> sees them: \<open>k\<close> calls of it.\<close>

fun attempts :: "nat \<Rightarrow> real \<Rightarrow> audioStreamer \<Rightarrow> audioStreamer" where
  "attempts 0 now s = s"
| "attempts (Suc k) now s = attempts k now (snd (snd (attemptRecovery now [] s)))"


text \<open>
  Chunks delivered by calls of \<open>addPCM16\<close> one after another, each at its time, while the
  platform does not fail.
\<close>

fun deliver :: "(real \<times> byte list) list \<Rightarrow> audioStreamer \<Rightarrow> audioStreamer" where
  "deliver [] s = s"
| "deliver ((now, chunk) # cs) s = deliver cs (snd (snd (addPCM16 now [] chunk s)))"

text \<open>
  Cutting a buffer into frames of \<open>n\<close> samples with a shorter last frame for what remains:
  frame \<open>i\<close> holds the samples from \<open>i * n\<close> up to \<open>(i + 1) * n\<close>. This is the framing in
  words, to compare \<open>pushFrames\<close> with.
\<close>

definition cutFrames :: "nat \<Rightarrow> frame \<Rightarrow> frame list" where
  "cutFrames n buf = map (\<lambda>i. take n (drop (i * n) buf)) [0 ..< (length buf + (n - 1)) div n]"

text \<open>The sources started, as start time and frame.\<close>

definition startTimes :: "audioStreamer \<Rightarrow> (real \<times> frame) list" where
  "startTimes s = map (\<lambda>b. (startTime b, audioData b)) (started s)"

text \<open>
  A recorder is idle: it holds no stream and no live track, nothing is attached and no
  \<open>start\<close> is in flight.
\<close>

definition idle :: "audioRecorder \<Rightarrow> bool" where
  "idle r = (stream r = None \<and> source r = None \<and> sourceOutputs r = 0 \<and> recording r = False \<and>
     recordingWorklet r = False \<and> vuWorklet r = False \<and> starting r = None \<and> liveTracks r = [])"

text \<open>What the executor of promise \<open>p\<close> waits for settles, several times in a row.\<close>

definition settle :: "nat \<Rightarrow> awaited list \<Rightarrow> audioRecorder \<Rightarrow> audioRecorder" where
  "settle p as r = fold (continue p) as r"

text \<open>\<open>n\<close> calls of \<open>start\<close> with none of them settled in between.\<close>

fun starts :: "nat \<Rightarrow> audioRecorder \<Rightarrow> audioRecorder" where
  "starts 0 r = r"
| "starts (Suc n) r = starts n (snd (AudioRecorder_start True True r))"

section \<open>The codec's round trip\<close>

lemma cat_bytes: "word_cat (ucast (drop_bit 8 w) :: byte) (ucast w :: byte) = (w :: int16)"
  by (rule bit_word_eqI) (auto simp: bit_simps)

lemma pcm16Samples_int16arrayBuffer:
  "pcm16Samples (int16arrayBuffer ws) = map (\<lambda>w. real_of_int (sint w) / 32768) ws"
  by (induction ws) (simp_all add: int16arrayBuffer_def int16Bytes_def getInt16_def cat_bytes)

lemma sint_int16: "- 32768 \<le> n \<Longrightarrow> n < 32768 \<Longrightarrow> sint (word_of_int n :: int16) = n"
  by (simp add: int_word_sint)

lemma convertSample_nonneg:
  assumes "0 \<le> x" "x \<le> 1"
  shows "sint (convertSample x) = \<lfloor>x * 32767\<rfloor>"
proof -
  have "0 \<le> \<lfloor>x * 32767\<rfloor>" "\<lfloor>x * 32767\<rfloor> < 32768"
    using assms by (simp_all add: floor_less_iff)
  then show ?thesis
    using assms by (simp add: convertSample_def toInt16_def js_trunc_def sint_int16)
qed

lemma convertSample_neg:
  assumes "x < 0" "- 1 \<le> x"
  shows "sint (convertSample x) = - \<lfloor>- (x * 32768)\<rfloor>"
proof -
  define n where "n = - \<lfloor>- (x * 32768)\<rfloor>"
  have "\<lfloor>- (x * 32768)\<rfloor> \<le> 32768" "0 \<le> \<lfloor>- (x * 32768)\<rfloor>"
    using assms by (simp_all add: le_floor_iff floor_le_iff)
  then have r: "- 32768 \<le> n" "n < 32768"
    unfolding n_def by linarith+
  have "convertSample x = word_of_int n"
    using assms by (simp add: n_def convertSample_def toInt16_def js_trunc_def mult_less_0_iff)
  then have "sint (convertSample x) = sint (word_of_int n :: int16)"
    by (rule arg_cong)
  also have "\<dots> = n"
    by (rule sint_int16 [OF r])
  finally show ?thesis
    by (simp only: n_def)
qed

lemma roundTrip_nonneg:
  assumes "0 \<le> x" "x \<le> 1"
  shows "0 \<le> x - real_of_int (sint (convertSample x)) / 32768"
    and "x - real_of_int (sint (convertSample x)) / 32768 < 2 / 32768"
proof -
  let ?q = "real_of_int \<lfloor>x * 32767\<rfloor>"
  have q: "?q \<le> x * 32767" "x * 32767 < ?q + 1"
    by linarith+
  from q assms have "?q \<le> x * 32768" "x * 32768 < ?q + 2"
    by linarith+
  then show "0 \<le> x - real_of_int (sint (convertSample x)) / 32768"
    and "x - real_of_int (sint (convertSample x)) / 32768 < 2 / 32768"
    by (simp_all add: convertSample_nonneg assms field_simps)
qed

lemma roundTrip_neg:
  assumes "x < 0" "- 1 \<le> x"
  shows "0 \<le> real_of_int (sint (convertSample x)) / 32768 - x"
    and "real_of_int (sint (convertSample x)) / 32768 - x < 1 / 32768"
proof -
  let ?q = "real_of_int \<lfloor>- (x * 32768)\<rfloor>"
  have q: "?q \<le> - (x * 32768)" "- (x * 32768) < ?q + 1"
    by linarith+
  from q have "x * 32768 \<le> - ?q" "- ?q < x * 32768 + 1"
    by linarith+
  then show "0 \<le> real_of_int (sint (convertSample x)) / 32768 - x"
    and "real_of_int (sint (convertSample x)) / 32768 - x < 1 / 32768"
    by (simp_all add: convertSample_neg assms field_simps)
qed

lemma roundTrip_sample:
  assumes "- 1 \<le> x" "x \<le> 1"
  shows "\<bar>real_of_int (sint (convertSample x)) / 32768 - x\<bar> < 2 / 32768 \<and>
         (x < 0 \<longrightarrow> \<bar>real_of_int (sint (convertSample x)) / 32768 - x\<bar> < 1 / 32768)"
proof (cases "x < 0")
  case True
  from roundTrip_neg [OF True assms(1)] True show ?thesis
    by simp
next
  case False
  then have "0 \<le> x"
    by simp
  from roundTrip_nonneg [OF this assms(2)] False show ?thesis
    by simp
qed

text \<open>
  C2 (amended). For samples in \<open>[-1, 1]\<close>, the capture codec followed by the playback
  codec gives back every sample to within less than \<open>2/32768\<close>, and a negative sample to
  within less than \<open>1/32768\<close>: a non-negative sample is scaled by 32767 and truncated, then
  divided by 32768. A sample outside \<open>[-1, 1]\<close> is converted as the nearer of \<open>-1\<close> and \<open>1\<close>
  is, to \<open>-32768\<close> or \<open>32767\<close>.
\<close>

theorem codec_round_trip:
  assumes "\<forall>x \<in> set xs. - 1 \<le> x \<and> x \<le> 1"
  shows "list_all2 (\<lambda>x y. \<bar>y - x\<bar> < 2 / 32768 \<and> (x < 0 \<longrightarrow> \<bar>y - x\<bar> < 1 / 32768)) xs
           (fst (processPCM16Chunk (int16arrayBuffer (convertToInt16 xs)))) \<and>
         (\<forall>x. convertSample x = convertSample (max (- 1) (min 1 x))) \<and>
         (\<forall>x \<ge> 1. convertSample x = 32767) \<and>
         (\<forall>x \<le> - 1. convertSample x = - 32768)"
proof -
  have "list_all2 (\<lambda>x y. \<bar>y - x\<bar> < 2 / 32768 \<and> (x < 0 \<longrightarrow> \<bar>y - x\<bar> < 1 / 32768)) xs
          (map (\<lambda>x. real_of_int (sint (convertSample x)) / 32768) xs)"
    unfolding list_all2_map2 list_all2_same using assms roundTrip_sample by blast
  moreover have "convertSample x = convertSample (max (- 1) (min 1 x))" for x
    by (simp add: convertSample_def)
  moreover have "1 \<le> x \<Longrightarrow> convertSample x = 32767" for x
    by (simp add: convertSample_def toInt16_def js_trunc_def)
  moreover have "x \<le> - 1 \<Longrightarrow> convertSample x = - 32768" for x
    by (simp add: convertSample_def toInt16_def js_trunc_def)
  ultimately show ?thesis
    by (simp add: processPCM16Chunk_def pcm16Samples_int16arrayBuffer convertToInt16_def comp_def)
qed

theorem codec_round_trip_witness:
  "list_all2 (\<lambda>x y. \<bar>y - x\<bar> < 2 / 32768 \<and> (x < 0 \<longrightarrow> \<bar>y - x\<bar> < 1 / 32768))
     [65535 / 65536, - 1 / 3]
     (fst (processPCM16Chunk (int16arrayBuffer (convertToInt16 [65535 / 65536, - 1 / 3])))) \<and>
   convertSample 2 = 32767 \<and> convertSample (- 2) = - 32768"
proof -
  have "\<forall>x \<in> set [65535 / 65536, - 1 / 3 :: real]. - 1 \<le> x \<and> x \<le> 1"
    by simp
  from codec_round_trip [OF this] show ?thesis
    by simp
qed

text \<open>
  The claim as it was stated fails: \<open>65535/65536\<close> is a Float32 value in range; it is
  encoded as 32766 and decoded as \<open>32766/32768\<close>, which is \<open>3/65536\<close> away, more than
  \<open>1/32768\<close>.
\<close>

theorem codec_round_trip_counterexample:
  "fst (processPCM16Chunk (int16arrayBuffer (convertToInt16 [65535 / 65536]))) = [32766 / 32768] \<and>
   \<bar>32766 / 32768 - 65535 / 65536\<bar> > (1 / 32768 :: real)"
  by (simp add: processPCM16Chunk_def pcm16Samples_int16arrayBuffer convertToInt16_def
      convertSample_def toInt16_def js_trunc_def)

section \<open>Decoding a transport payload\<close>

text \<open>
  C10. \<open>base64ToArrayBuffer\<close> returns a buffer for every string and every decoder: it never
  raises. Where the decoder raises, the buffer is empty; where it returns a binary string,
  the buffer holds its code units as bytes. An empty buffer decodes to no samples.
\<close>

theorem base64ToArrayBuffer_total:
  "(\<exists>buffer. base64ToArrayBuffer decoder base64 = Inr buffer) \<and>
   (\<forall>e. decoder base64 = Inl e \<longrightarrow> base64ToArrayBuffer decoder base64 = Inr []) \<and>
   (\<forall>binaryString. decoder base64 = Inr binaryString \<longrightarrow>
      base64ToArrayBuffer decoder base64 = Inr (map word_of_nat binaryString)) \<and>
   processPCM16Chunk [] = ([], [])"
  by (simp add: base64ToArrayBuffer_def base64ToArrayBuffer_try_def processPCM16Chunk_def
      split: sum.splits)

theorem base64ToArrayBuffer_total_witness:
  "atob (js ''%%%%'') = Inl InvalidCharacterError \<and>
   base64ToArrayBuffer atob (js ''%%%%'') = Inr [] \<and>
   atob (js ''AQID'') = Inr [1, 2, 3] \<and>
   base64ToArrayBuffer atob (js ''AQID'') = Inr [1, 2, 3]"
proof -
  have bad: "atob (js ''%%%%'') = Inl InvalidCharacterError"
    by (simp add: atob_def js_def stripPadding_def isAsciiWhitespace_def base64Index_def)
  have good: "atob (js ''AQID'') = Inr [1, 2, 3]"
    by (simp add: atob_def js_def stripPadding_def isAsciiWhitespace_def base64Index_def)
  from base64ToArrayBuffer_total [of atob "js ''%%%%''"] bad
  have "base64ToArrayBuffer atob (js ''%%%%'') = Inr []"
    by blast
  moreover from base64ToArrayBuffer_total [of atob "js ''AQID''"] good
  have "base64ToArrayBuffer atob (js ''AQID'') = Inr (map word_of_nat [1, 2, 3])"
    by blast
  ultimately show ?thesis
    using bad good by simp
qed

section \<open>The scheduler never schedules in the past\<close>

lemma schedulesAhead_refl: "schedulesAhead s s"
  by (simp add: schedulesAhead_def)

lemma schedulesAhead_trans: "schedulesAhead s t \<Longrightarrow> schedulesAhead t u \<Longrightarrow> schedulesAhead s u"
  by (auto simp: schedulesAhead_def)

lemma schedulesAhead_same: "started t = started s \<Longrightarrow> schedulesAhead s t"
  by (simp add: schedulesAhead_def)

lemma clockAhead_refl: "clockAhead now s s"
  by (simp add: clockAhead_def)

lemma clockAhead_trans: "clockAhead now s t \<Longrightarrow> clockAhead now t u \<Longrightarrow> clockAhead now s u"
  by (auto simp: clockAhead_def)

lemma scheduleOne_ahead: "schedulesAhead s (snd (scheduleOne now oc s))"
  by (simp add: scheduleOne_def schedulesAhead_def notInPast_def Let_def split: list.splits)

lemma duration_nonneg: "0 \<le> real (length (data :: frame)) / real sampleRate"
  by simp

lemma scheduleOne_clock: "clockAhead now s (snd (scheduleOne now oc s))"
proof -
  have "now \<le> max (scheduledTime s) now + real (length data) / real sampleRate" for data :: frame
    using duration_nonneg [of data] by linarith
  then show ?thesis
    by (simp add: scheduleOne_def clockAhead_def Let_def split: list.splits)
qed

lemma scheduleLoop_exit:
  "\<not> (audioQueue s \<noteq> [] \<and> scheduledTime s < now + SCHEDULE_AHEAD_TIME) \<Longrightarrow>
   scheduleLoop now os s = (None, os, s)"
  by (subst scheduleLoop.simps) auto

lemma scheduleLoop_pass:
  "audioQueue s \<noteq> [] \<and> scheduledTime s < now + SCHEDULE_AHEAD_TIME \<Longrightarrow>
   fst (scheduleOne now (nextOutcome os) s) = None \<Longrightarrow>
   scheduleLoop now os s = scheduleLoop now (tl os) (snd (scheduleOne now (nextOutcome os) s))"
  by (subst scheduleLoop.simps) auto

lemma scheduleLoop_throw:
  "audioQueue s \<noteq> [] \<and> scheduledTime s < now + SCHEDULE_AHEAD_TIME \<Longrightarrow>
   fst (scheduleOne now (nextOutcome os) s) = Some e \<Longrightarrow>
   scheduleLoop now os s = (Some e, tl os, snd (scheduleOne now (nextOutcome os) s))"
  by (subst scheduleLoop.simps) auto

lemma scheduleLoop_ahead: "schedulesAhead s (snd (snd (scheduleLoop now os s)))"
proof (induction now os s rule: scheduleLoop.induct)
  case (1 now os s)
  show ?case
  proof (cases "audioQueue s \<noteq> [] \<and> scheduledTime s < now + SCHEDULE_AHEAD_TIME")
    case False
    then show ?thesis
      by (simp add: scheduleLoop_exit schedulesAhead_refl)
  next
    case True
    show ?thesis
    proof (cases "fst (scheduleOne now (nextOutcome os) s)")
      case None
      from "1.IH" [OF True None] scheduleOne_ahead [of s now "nextOutcome os"]
      show ?thesis
        unfolding scheduleLoop_pass [OF True None] by (rule schedulesAhead_trans [rotated])
    next
      case (Some e)
      show ?thesis
        unfolding scheduleLoop_throw [OF True Some] by (simp add: scheduleOne_ahead)
    qed
  qed
qed

lemma scheduleLoop_clock: "clockAhead now s (snd (snd (scheduleLoop now os s)))"
proof (induction now os s rule: scheduleLoop.induct)
  case (1 now os s)
  show ?case
  proof (cases "audioQueue s \<noteq> [] \<and> scheduledTime s < now + SCHEDULE_AHEAD_TIME")
    case False
    then show ?thesis
      by (simp add: scheduleLoop_exit clockAhead_refl)
  next
    case True
    show ?thesis
    proof (cases "fst (scheduleOne now (nextOutcome os) s)")
      case None
      from "1.IH" [OF True None] scheduleOne_clock [of now s "nextOutcome os"]
      show ?thesis
        unfolding scheduleLoop_pass [OF True None] by (rule clockAhead_trans [rotated])
    next
      case (Some e)
      show ?thesis
        unfolding scheduleLoop_throw [OF True Some] by (simp add: scheduleOne_clock)
    qed
  qed
qed

lemma scheduleNextBuffer_started:
  "started (snd (snd (scheduleNextBuffer now os s))) = started (snd (snd (scheduleLoop now os s)))"
  by (simp add: scheduleNextBuffer_def split: prod.splits option.splits)

lemma scheduleNextBuffer_time:
  "scheduledTime (snd (snd (scheduleNextBuffer now os s))) = scheduledTime (snd (snd (scheduleLoop now os s)))"
  by (simp add: scheduleNextBuffer_def split: prod.splits option.splits)

lemma scheduleNextBuffer_ahead: "schedulesAhead s (snd (snd (scheduleNextBuffer now os s)))"
  using scheduleLoop_ahead [of s now os]
  by (simp add: schedulesAhead_def scheduleNextBuffer_started)

lemma scheduleNextBuffer_clock: "clockAhead now s (snd (snd (scheduleNextBuffer now os s)))"
  using scheduleLoop_clock [of now s os]
  by (simp add: clockAhead_def scheduleNextBuffer_time)

lemma stop_ahead: "schedulesAhead s (stop now s)"
  by (simp add: stop_def schedulesAhead_def)

lemma stop_clock: "clockAhead now s (stop now s)"
  by (simp add: stop_def clockAhead_def)

lemma resume_ahead: "schedulesAhead s (resume now s)"
  by (simp add: resume_def schedulesAhead_def)

lemma resume_clock: "clockAhead now s (resume now s)"
  by (simp add: resume_def clockAhead_def initialBufferTime_def)

lemma attemptRecovery_ahead: "schedulesAhead s (snd (snd (attemptRecovery now os s)))"
proof -
  have "schedulesAhead s t \<Longrightarrow> schedulesAhead s (snd (snd (scheduleNextBuffer now os t)))" for t
    by (rule schedulesAhead_trans [OF _ scheduleNextBuffer_ahead])
  then show ?thesis
    by (simp add: attemptRecovery_def Let_def stop_def createGain_def schedulesAhead_same)
qed

lemma attemptRecovery_clock: "clockAhead now s (snd (snd (attemptRecovery now os s)))"
proof -
  have "clockAhead now s t \<Longrightarrow> clockAhead now s (snd (snd (scheduleNextBuffer now os t)))" for t
    by (rule clockAhead_trans [OF _ scheduleNextBuffer_clock])
  then show ?thesis
    by (simp add: attemptRecovery_def Let_def stop_def createGain_def clockAhead_def
        initialBufferTime_def)
qed

lemma addPCM16_ahead: "schedulesAhead s (snd (snd (addPCM16 now os chunk s)))"
proof -
  let ?s2 = "s\<lparr>isStreamComplete := False,
                consoleErrors := consoleErrors s @ snd (processPCM16Chunk chunk),
                audioQueue := pushFrames (audioQueue s) (fst (processPCM16Chunk chunk)),
                isPlaying := True, scheduledTime := now + initialBufferTime\<rparr>"
  let ?r = "scheduleNextBuffer now os ?s2"
  have a: "schedulesAhead s (snd (snd ?r))"
    by (rule schedulesAhead_trans [OF _ scheduleNextBuffer_ahead]) (simp add: schedulesAhead_same)
  have b: "schedulesAhead s (snd (snd (attemptRecovery now os' (t\<lparr>consoleErrors := ce\<rparr>))))"
    if "schedulesAhead s t" for os' t ce
    by (rule schedulesAhead_trans [OF _ attemptRecovery_ahead]) (use that in \<open>simp add: schedulesAhead_def\<close>)
  show ?thesis
    using a b by (auto simp: addPCM16_def Let_def schedulesAhead_same split: prod.splits option.splits)
qed


lemma addPCM16_clock: "clockAhead now s (snd (snd (addPCM16 now os chunk s)))"
proof -
  let ?s1 = "s\<lparr>isStreamComplete := False,
                consoleErrors := consoleErrors s @ snd (processPCM16Chunk chunk),
                audioQueue := pushFrames (audioQueue s) (fst (processPCM16Chunk chunk))\<rparr>"
  let ?s2 = "?s1\<lparr>isPlaying := True, scheduledTime := now + initialBufferTime\<rparr>"
  obtain eo os' s' where r: "scheduleNextBuffer now os ?s2 = (eo, os', s')"
    by (cases "scheduleNextBuffer now os ?s2") auto
  have "clockAhead now s ?s2"
    by (simp add: clockAhead_def initialBufferTime_def)
  from clockAhead_trans [OF this scheduleNextBuffer_clock [of now ?s2 os]] r
  have a: "clockAhead now s s'"
    by simp
  then have "clockAhead now s (s'\<lparr>consoleErrors := ce\<rparr>)" for ce
    by (simp add: clockAhead_def)
  then have b: "clockAhead now s (snd (snd (attemptRecovery now os' (s'\<lparr>consoleErrors := ce\<rparr>))))" for ce
    by (rule clockAhead_trans [OF _ attemptRecovery_clock])
  have c: "clockAhead now s ?s1"
    by (simp add: clockAhead_def)
  show ?thesis
  proof (cases "isPlaying s")
    case True
    with c show ?thesis
      by (simp add: addPCM16_def Let_def)
  next
    case False
    with a b r show ?thesis
      by (cases eo) (simp_all add: addPCM16_def Let_def)
  qed
qed

lemma fire_ahead: "schedulesAhead s (fire now os t s)"
proof -
  have "schedulesAhead s (snd (snd (scheduleNextBuffer now os (s\<lparr>timeouts := ts\<rparr>))))" for ts
    by (rule schedulesAhead_trans [OF _ scheduleNextBuffer_ahead]) (simp add: schedulesAhead_same)
  then show ?thesis
    by (simp add: fire_def scheduleNextBuffer_ahead schedulesAhead_same createGain_def split: timer.splits)
qed

lemma fire_clock: "clockAhead now s (fire now os t s)"
proof -
  have a: "clockAhead now s (snd (snd (scheduleNextBuffer now os (s\<lparr>timeouts := ts\<rparr>))))" for ts
    by (rule clockAhead_trans [OF _ scheduleNextBuffer_clock]) (simp add: clockAhead_def)
  have b: "clockAhead now s (createGain (s\<lparr>rebuilds := n\<rparr>))" for n
    by (simp add: clockAhead_def createGain_def)
  show ?thesis
    by (cases t) (simp_all add: fire_def a b scheduleNextBuffer_clock clockAhead_refl)
qed

lemma step_ahead: "schedulesAhead s (step e s)"
  by (simp add: step_def addPCM16_ahead stop_ahead resume_ahead fire_ahead
      split: prod.splits event.splits)

lemma step_clock: "clockAhead now s (step (now, os, ev) s)"
  by (simp add: step_def addPCM16_clock stop_clock resume_clock fire_clock split: event.splits)

lemma run_ahead: "schedulesAhead s (run es s)"
proof (induction es arbitrary: s)
  case Nil
  show ?case by (simp add: schedulesAhead_refl)
next
  case (Cons e es)
  from step_ahead [of s e] Cons [of "step e s"] show ?case
    by (simp add: schedulesAhead_trans)
qed

text \<open>
  C1. Whatever happens to a streamer (calls of \<open>addPCM16\<close>, \<open>stop\<close> and \<open>resume\<close> and timers,
  in any order, at any times, with any failures of the platform), every source it starts
  is started at a time that is not before the audio clock at the moment of scheduling: this
  holds for the sources added to those of any state and so for all the sources of a run from
  the constructor. And every operation, at its time \<open>now\<close>, leaves the scheduled clock
  alone or sets it no earlier than \<open>now\<close>.
\<close>

theorem never_schedules_in_the_past:
  "schedulesAhead s (run es s) \<and>
   list_all notInPast (started (run es AudioStreamer_new)) \<and>
   clockAhead now s (step (now, os, ev) s)"
proof -
  have "schedulesAhead AudioStreamer_new (run es AudioStreamer_new)"
    by (rule run_ahead)
  then have "list_all notInPast (started (run es AudioStreamer_new))"
    by (auto simp: schedulesAhead_def AudioStreamer_new_def)
  then show ?thesis
    by (simp add: run_ahead step_clock)
qed

section \<open>Stopping\<close>

lemma scheduleNextBuffer_empty:
  "audioQueue s = [] \<Longrightarrow>
   scheduleNextBuffer now os s =
     (None, os, if isStreamComplete s then s\<lparr>isPlaying := False, checkInterval := False\<rparr>
                else s\<lparr>checkInterval := True\<rparr>)"
  by (simp add: scheduleNextBuffer_def scheduleLoop_exit)

lemma fire_stopped:
  assumes "audioQueue s = []" "isStreamComplete s"
  shows "audioQueue (fire now os t s) = [] \<and> isStreamComplete (fire now os t s) \<and>
         started (fire now os t s) = started s \<and> scheduledTime (fire now os t s) = scheduledTime s"
  using assms by (cases t) (simp_all add: fire_def scheduleNextBuffer_empty createGain_def)

lemma fires_stopped:
  "audioQueue s = [] \<Longrightarrow> isStreamComplete s \<Longrightarrow>
   audioQueue (fires ts s) = [] \<and> started (fires ts s) = started s \<and>
   scheduledTime (fires ts s) = scheduledTime s"
proof (induction ts arbitrary: s)
  case Nil
  then show ?case by simp
next
  case (Cons a ts)
  obtain now os t where a: "a = (now, os, t)"
    by (cases a) auto
  from fire_stopped [OF Cons.prems, of now os t] Cons.IH [of "fire now os t s"] show ?case
    by (simp add: a)
qed

text \<open>
  C6. After \<open>stop\<close> the queue is empty, the scheduled clock is the audio clock of the call,
  the streamer is not playing and its interval is cleared; \<open>stop\<close> itself starts no source,
  and whatever timers fire afterwards (those still pending from before included), at any
  times, the queue stays empty, the clock stays and no source is started. The state before
  is any state: in particular the one a call of \<open>addPCM16\<close> has just left.
\<close>

theorem stop_empties_the_queue:
  "audioQueue (stop now s) = [] \<and> scheduledTime (stop now s) = now \<and>
   isPlaying (stop now s) = False \<and> checkInterval (stop now s) = False \<and>
   started (stop now s) = started s \<and>
   audioQueue (fires ts (stop now s)) = [] \<and> started (fires ts (stop now s)) = started s \<and>
   scheduledTime (fires ts (stop now s)) = now \<and>
   audioQueue (fires ts (stop now (snd (snd (addPCM16 before os chunk s))))) = [] \<and>
   started (fires ts (stop now (snd (snd (addPCM16 before os chunk s))))) =
     started (snd (snd (addPCM16 before os chunk s)))"
proof -
  have "audioQueue (stop now t) = []" "isStreamComplete (stop now t)" for t
    by (simp_all add: stop_def)
  from fires_stopped [OF this] show ?thesis
    by (simp add: stop_def)
qed

section \<open>Recovery\<close>

lemma attemptRecovery_recovers:
  assumes "retryCount s < maxRetries s"
  shows "attemptRecovery now os s =
     (None, os,
      s\<lparr>retryCount := Suc (retryCount s), isPlaying := False, isStreamComplete := False,
        audioQueue := [], scheduledTime := now + initialBufferTime, checkInterval := False,
        fades := fades s @ [(gainNode s, now + 1 / 10)], rebuilds := Suc (rebuilds s),
        gainNode := nodesCreated s, nodesCreated := Suc (nodesCreated s)\<rparr>)"
  using assms by (simp add: attemptRecovery_def stop_def createGain_def Let_def)



lemma pushFrames_short:
  "length buf < bufferSize \<Longrightarrow> pushFrames q buf = (if buf = [] then q else q @ [buf])"
  by (subst pushFrames.simps) simp

lemma pushFrames_long:
  "bufferSize \<le> length buf \<Longrightarrow>
   pushFrames q buf = pushFrames (q @ [take bufferSize buf]) (drop bufferSize buf)"
  by (subst pushFrames.simps) simp

lemma pcm16Samples_zeros: "pcm16Samples (replicate (2 * n) 0) = replicate n 0"
  by (induction n) (simp_all add: getInt16_def)

lemma scheduleNextBuffer_build_throws:
  assumes "audioQueue s = f # rest" "scheduledTime s < now + SCHEDULE_AHEAD_TIME"
  shows "scheduleNextBuffer now (BuildThrows # os) s = (Some NotSupportedError, os, s\<lparr>audioQueue := rest\<rparr>)"
proof -
  have one: "scheduleOne now BuildThrows s = (Some NotSupportedError, s\<lparr>audioQueue := rest\<rparr>)"
    using assms by (simp add: scheduleOne_def)
  have "scheduleLoop now (BuildThrows # os) s = (Some NotSupportedError, os, s\<lparr>audioQueue := rest\<rparr>)"
    using assms one by (subst scheduleLoop.simps) (simp add: nextOutcome_def)
  then show ?thesis
    by (simp add: scheduleNextBuffer_def)
qed

lemma addPCM16_failure:
  assumes "\<not> isPlaying s" "pushFrames (audioQueue s) (pcm16Samples chunk) = f # rest"
  shows "addPCM16 now (BuildThrows # os) chunk s =
     attemptRecovery now os
       (s\<lparr>isStreamComplete := False, isPlaying := True, scheduledTime := now + initialBufferTime,
          audioQueue := rest,
          consoleErrors := (consoleErrors s @ snd (processPCM16Chunk chunk)) @ [''Error adding PCM16 data:'']\<rparr>)"
proof -
  let ?s2 = "s\<lparr>isStreamComplete := False,
                consoleErrors := consoleErrors s @ snd (processPCM16Chunk chunk),
                audioQueue := f # rest, isPlaying := True, scheduledTime := now + initialBufferTime\<rparr>"
  have "scheduleNextBuffer now (BuildThrows # os) ?s2 = (Some NotSupportedError, os, ?s2\<lparr>audioQueue := rest\<rparr>)"
    by (rule scheduleNextBuffer_build_throws) (simp_all add: initialBufferTime_def SCHEDULE_AHEAD_TIME_def)
  moreover have "fst (processPCM16Chunk chunk) = pcm16Samples chunk"
    by (simp add: processPCM16Chunk_def)
  ultimately show ?thesis
    using assms by (simp add: addPCM16_def Let_def)
qed








text \<open>
  C5. Recovery empties the queue: \<open>attemptRecovery\<close> calls \<open>stop\<close>, which assigns \<open>[]\<close> to
  \<open>audioQueue\<close>, before it looks for frames to schedule. At the method, two queued frames
  are gone after one attempt within the budget. Through the interface, a chunk of 7682
  samples is framed as 7680 and 2; the platform raises while the first source is built, and
  after the recovery neither frame is queued or started.
\<close>

theorem recovery_empties_the_queue:
  "audioQueue (snd (snd (attemptRecovery 0 [] (AudioStreamer_new\<lparr>audioQueue := [[1 / 2], [1 / 4]]\<rparr>)))) = [] \<and>
   pushFrames [] (pcm16Samples (replicate 15364 0)) = [replicate 7680 0, replicate 2 0] \<and>
   audioQueue (snd (snd (addPCM16 0 [BuildThrows] (replicate 15364 0) AudioStreamer_new))) = [] \<and>
   started (snd (snd (addPCM16 0 [BuildThrows] (replicate 15364 0) AudioStreamer_new))) = []"
proof -
  have "pcm16Samples (replicate (2 * 7682) 0) = replicate 7682 0"
    by (rule pcm16Samples_zeros)
  then have fr: "pushFrames [] (pcm16Samples (replicate 15364 0)) = [replicate 7680 0, replicate 2 0]"
    by (simp add: pushFrames_long pushFrames_short bufferSize_def)
  then have fr': "pushFrames (audioQueue AudioStreamer_new) (pcm16Samples (replicate 15364 0)) =
      [replicate 7680 0, replicate 2 0]"
    by (simp add: AudioStreamer_new_def)
  have np: "\<not> isPlaying AudioStreamer_new"
    by (simp add: AudioStreamer_new_def)
  have "audioQueue (snd (snd (attemptRecovery 0 [] (AudioStreamer_new\<lparr>audioQueue := [[1 / 2], [1 / 4]]\<rparr>)))) = []"
    by (simp add: attemptRecovery_recovers AudioStreamer_new_def)
  then show ?thesis
    unfolding addPCM16_failure [OF np fr']
    by (simp add: fr attemptRecovery_recovers AudioStreamer_new_def)
qed

section \<open>Framing\<close>

lemma pushFrames_append: "pushFrames q buf = q @ pushFrames [] buf"
proof (induction buf arbitrary: q rule: measure_induct_rule [where f = length])
  case (less buf)
  show ?case
  proof (cases "bufferSize \<le> length buf")
    case True
    then have shorter: "length (drop bufferSize buf) < length buf"
      by (simp add: bufferSize_def)
    have "pushFrames q buf = (q @ [take bufferSize buf]) @ pushFrames [] (drop bufferSize buf)"
      using less [OF shorter, of "q @ [take bufferSize buf]"] by (simp add: pushFrames_long [OF True])
    moreover have "pushFrames [] buf = [take bufferSize buf] @ pushFrames [] (drop bufferSize buf)"
      using less [OF shorter, of "[take bufferSize buf]"] by (simp add: pushFrames_long [OF True])
    ultimately show ?thesis
      by simp
  next
    case False
    then show ?thesis
      by (simp add: pushFrames_short)
  qed
qed

lemma pushFrames_frames:
  "concat (pushFrames [] buf) = buf \<and>
   (\<forall>f \<in> set (pushFrames [] buf). f \<noteq> [] \<and> length f \<le> bufferSize)"
proof (induction buf rule: measure_induct_rule [where f = length])
  case (less buf)
  show ?case
  proof (cases "bufferSize \<le> length buf")
    case True
    then have shorter: "length (drop bufferSize buf) < length buf"
      by (simp add: bufferSize_def)
    have "pushFrames [] buf = [take bufferSize buf] @ pushFrames [] (drop bufferSize buf)"
      using pushFrames_append [of "[take bufferSize buf]"] by (simp add: pushFrames_long [OF True])
    moreover have "take bufferSize buf \<noteq> []"
      using True by (auto simp: bufferSize_def)
    ultimately show ?thesis
      using less [OF shorter] by simp
  next
    case False
    then show ?thesis
      by (simp add: pushFrames_short)
  qed
qed

lemma scheduleOne_playlist:
  assumes "audioQueue s \<noteq> []" "[] \<notin> set (audioQueue s)"
  shows "fst (scheduleOne now Succeeds s) = None \<and>
         playlist (snd (scheduleOne now Succeeds s)) = playlist s \<and>
         [] \<notin> set (audioQueue (snd (scheduleOne now Succeeds s)))"
  using assms by (cases "audioQueue s") (auto simp: scheduleOne_def playlist_def Let_def)

lemma scheduleLoop_playlist:
  "[] \<notin> set (audioQueue s) \<Longrightarrow>
   fst (scheduleLoop now [] s) = None \<and>
   playlist (snd (snd (scheduleLoop now [] s))) = playlist s \<and>
   [] \<notin> set (audioQueue (snd (snd (scheduleLoop now [] s))))"
proof (induction now "[] :: outcome list" s rule: scheduleLoop.induct)
  case (1 now s)
  show ?case
  proof (cases "audioQueue s \<noteq> [] \<and> scheduledTime s < now + SCHEDULE_AHEAD_TIME")
    case False
    with "1.prems" show ?thesis
      by (simp add: scheduleLoop_exit)
  next
    case True
    from scheduleOne_playlist [of s now] True "1.prems"
    have one: "fst (scheduleOne now (nextOutcome []) s) = None"
      "playlist (snd (scheduleOne now (nextOutcome []) s)) = playlist s"
      "[] \<notin> set (audioQueue (snd (scheduleOne now (nextOutcome []) s)))"
      by (simp_all add: nextOutcome_def)
    from "1.hyps" [OF True one(1) _ one(3)] one(2) show ?thesis
      unfolding scheduleLoop_pass [OF True one(1)] by simp
  qed
qed

lemma scheduleNextBuffer_playlist:
  assumes "[] \<notin> set (audioQueue s)"
  shows "fst (scheduleNextBuffer now [] s) = None \<and>
         playlist (snd (snd (scheduleNextBuffer now [] s))) = playlist s \<and>
         [] \<notin> set (audioQueue (snd (snd (scheduleNextBuffer now [] s))))"
proof -
  obtain eo os' s' where r: "scheduleLoop now [] s = (eo, os', s')"
    by (cases "scheduleLoop now [] s") auto
  with scheduleLoop_playlist [OF assms, of now]
  have "eo = None" "playlist s' = playlist s" "[] \<notin> set (audioQueue s')"
    by simp_all
  with r show ?thesis
    by (auto simp: scheduleNextBuffer_def playlist_def)
qed

lemma addPCM16_playlist:
  assumes "[] \<notin> set (audioQueue s)"
  shows "fst (addPCM16 now [] chunk s) = None \<and>
         playlist (snd (snd (addPCM16 now [] chunk s))) = playlist s @ pushFrames [] (pcm16Samples chunk) \<and>
         [] \<notin> set (audioQueue (snd (snd (addPCM16 now [] chunk s))))"
proof -
  let ?s1 = "s\<lparr>isStreamComplete := False,
                consoleErrors := consoleErrors s @ snd (processPCM16Chunk chunk),
                audioQueue := pushFrames (audioQueue s) (fst (processPCM16Chunk chunk))\<rparr>"
  let ?s2 = "?s1\<lparr>isPlaying := True, scheduledTime := now + initialBufferTime\<rparr>"
  have q: "audioQueue ?s1 = audioQueue s @ pushFrames [] (pcm16Samples chunk)"
    using pushFrames_append [of "audioQueue s"] by (simp add: processPCM16Chunk_def)
  have ne: "[] \<notin> set (audioQueue ?s1)"
    unfolding q using assms pushFrames_frames [of "pcm16Samples chunk"] by auto
  have p1: "playlist ?s1 = playlist s @ pushFrames [] (pcm16Samples chunk)"
    using q by (simp add: playlist_def)
  have ne2: "[] \<notin> set (audioQueue ?s2)"
    using ne by simp
  have p2: "playlist ?s2 = playlist ?s1"
    by (simp add: playlist_def)
  obtain eo os' s' where r: "scheduleNextBuffer now [] ?s2 = (eo, os', s')"
    by (cases "scheduleNextBuffer now [] ?s2") auto
  with scheduleNextBuffer_playlist [OF ne2, of now] p2
  have r': "eo = None" "playlist s' = playlist ?s1" "[] \<notin> set (audioQueue s')"
    by simp_all
  show ?thesis
  proof (cases "isPlaying s")
    case True
    with p1 ne show ?thesis
      by (simp add: addPCM16_def Let_def)
  next
    case False
    with r r' p1 show ?thesis
      by (simp add: addPCM16_def Let_def)
  qed
qed

lemma deliver_playlist:
  "[] \<notin> set (audioQueue s) \<Longrightarrow>
   playlist (deliver cs s) = playlist s @ concat (map (\<lambda>c. pushFrames [] (pcm16Samples (snd c))) cs)"
proof (induction cs arbitrary: s)
  case Nil
  show ?case by simp
next
  case (Cons c cs)
  obtain now chunk where c: "c = (now, chunk)"
    by (cases c) auto
  from addPCM16_playlist [OF Cons.prems, of now chunk] Cons.IH [of "snd (snd (addPCM16 now [] chunk s))"]
  show ?case
    by (simp add: c)
qed

lemma pcm16Samples_append:
  "even (length xs) \<Longrightarrow> pcm16Samples (xs @ ys) = pcm16Samples xs @ pcm16Samples ys"
  by (induction xs rule: pcm16Samples.induct) simp_all

lemma pcm16Samples_concat:
  "\<forall>c \<in> set cs. even (length c) \<Longrightarrow> pcm16Samples (concat cs) = concat (map pcm16Samples cs)"
  by (induction cs) (simp_all add: pcm16Samples_append)

lemma ceil_div:
  fixes m n :: nat
  assumes "0 < n"
  shows "(m + (n - 1)) div n = m div n + (if m mod n = 0 then 0 else 1)"
proof -
  have m: "m = m div n * n + m mod n"
    by simp
  have r: "m mod n < n"
    using assms by simp
  have "(m + (n - 1)) div n = (m mod n + (n - 1) + m div n * n) div n"
    by (subst m) (simp add: add.commute add.left_commute)
  also have "\<dots> = (m mod n + (n - 1)) div n + m div n"
    using assms by (simp only: div_mult_self1 [of n] div_mult_self3 [of n])
  also have "(m mod n + (n - 1)) div n = (if m mod n = 0 then 0 else 1)"
  proof (cases "m mod n = 0")
    case True
    then show ?thesis using assms by simp
  next
    case False
    then have "n \<le> m mod n + (n - 1)" "m mod n + (n - 1) < 2 * n"
      using r by simp_all
    then have "(m mod n + (n - 1)) div n = 1"
      by (metis One_nat_def Suc_1 div_nat_eqI mult.commute nat_mult_1_right mult_Suc_right add.commute mult.right_neutral plus_1_eq_Suc)
    with False show ?thesis by simp
  qed
  finally show ?thesis by simp
qed

lemma pushFrames_cut:
  "pushFrames [] buf =
     map (\<lambda>i. take bufferSize (drop (i * bufferSize) buf))
       [0 ..< (length buf + (bufferSize - 1)) div bufferSize]"
proof (induction buf rule: measure_induct_rule [where f = length])
  case (less buf)
  show ?case
  proof (cases "bufferSize \<le> length buf")
    case True
    then have shorter: "length (drop bufferSize buf) < length buf"
      by (simp add: bufferSize_def)
    have n: "(length buf + (bufferSize - 1)) div bufferSize =
        Suc ((length (drop bufferSize buf) + (bufferSize - 1)) div bufferSize)"
      using True by (simp add: bufferSize_def)
    have "pushFrames [] buf = take bufferSize buf # pushFrames [] (drop bufferSize buf)"
      using pushFrames_append [of "[take bufferSize buf]"] by (simp add: pushFrames_long [OF True])
    also have "pushFrames [] (drop bufferSize buf) =
        map (\<lambda>i. take bufferSize (drop (i * bufferSize) (drop bufferSize buf)))
          [0 ..< (length (drop bufferSize buf) + (bufferSize - 1)) div bufferSize]"
      by (rule less [OF shorter])
    finally show ?thesis
      unfolding n by (simp add: upt_conv_Cons map_Suc_upt [symmetric] add.commute del: upt_Suc)
  next
    case False
    then have "(length buf + (bufferSize - 1)) div bufferSize = (if buf = [] then 0 else 1)"
      by (cases buf) (simp_all add: bufferSize_def)
    with False show ?thesis
      by (simp add: pushFrames_short)
  qed
qed

lemma pushFrames_cutFrames: "pushFrames [] buf = cutFrames bufferSize buf"
  using pushFrames_cut [of buf] by (simp add: cutFrames_def)

lemma cutFrames_length:
  "0 < n \<Longrightarrow> length (cutFrames n buf) = length buf div n + (if length buf mod n = 0 then 0 else 1)"
  by (simp only: cutFrames_def length_map length_upt ceil_div minus_nat.diff_0)

lemma cutFrames_full:
  assumes "0 < n" "i < length buf div n"
  shows "cutFrames n buf ! i = take n (drop (i * n) buf) \<and> length (cutFrames n buf ! i) = n"
proof -
  from assms ceil_div [OF assms(1), of "length buf"] have a: "i < (length buf + (n - 1)) div n"
    by simp
  from assms(2) have "Suc i \<le> length buf div n"
    by simp
  then have "Suc i * n \<le> length buf div n * n"
    by (rule mult_le_mono1)
  also have "\<dots> \<le> length buf"
    by simp
  finally have "n \<le> length buf - i * n"
    by simp
  with a show ?thesis
    by (simp add: cutFrames_def)
qed

lemma cutFrames_last:
  assumes "0 < n" "length buf mod n \<noteq> 0"
  shows "last (cutFrames n buf) = drop (length buf div n * n) buf \<and>
         length (last (cutFrames n buf)) = length buf mod n"
proof -
  from assms ceil_div [OF assms(1), of "length buf"]
  have q: "(length buf + (n - 1)) div n = Suc (length buf div n)"
    by simp
  have l: "length buf - length buf div n * n = length buf mod n"
    by (simp add: minus_div_mult_eq_mod)
  moreover have "length buf mod n < n"
    using assms(1) by simp
  ultimately have "take n (drop (length buf div n * n) buf) = drop (length buf div n * n) buf"
    by simp
  then show ?thesis
    unfolding cutFrames_def q by (simp add: l)
qed

lemma cutFrames_zeros: "cutFrames 7680 (replicate 7682 (0 :: real)) = [replicate 7680 0, replicate 2 0]"
  by (simp add: cutFrames_def upt_conv_Cons)

text \<open>
  C3 (amended). Every call of \<open>addPCM16\<close> is framed on its own, by cutting: frame \<open>i\<close> of a
  call holds the samples from \<open>7680 * i\<close> up to \<open>7680 * (i + 1)\<close> of that call's decoded
  chunk, so a chunk of \<open>n\<close> samples gives \<open>n div 7680\<close> frames of exactly 7680 samples and
  then, when \<open>n mod 7680\<close> is not 0, one short frame of \<open>n mod 7680\<close> samples. When chunks
  of even length are delivered to a new streamer and the platform does not fail, the
  frames started and queued are these framings of the chunks one after another; their
  concatenation is the decoding of all the bytes, in order, whatever the split. The frame
  boundaries follow the calls.
\<close>

theorem chunking:
  assumes "\<forall>c \<in> set cs. even (length (snd c))"
  shows "playlist (deliver cs AudioStreamer_new) =
           concat (map (\<lambda>c. pushFrames [] (pcm16Samples (snd c))) cs) \<and>
         playlist (deliver cs AudioStreamer_new) =
           concat (map (\<lambda>c. cutFrames 7680 (pcm16Samples (snd c))) cs) \<and>
         concat (playlist (deliver cs AudioStreamer_new)) = pcm16Samples (concat (map snd cs)) \<and>
         (\<forall>f \<in> set (playlist (deliver cs AudioStreamer_new)). f \<noteq> [] \<and> length f \<le> bufferSize) \<and>
         bufferSize = 7680 \<and>
         (\<forall>buf :: frame.
            length (cutFrames 7680 buf) =
              length buf div 7680 + (if length buf mod 7680 = 0 then 0 else 1) \<and>
            (\<forall>i < length buf div 7680.
               cutFrames 7680 buf ! i = take 7680 (drop (i * 7680) buf) \<and>
               length (cutFrames 7680 buf ! i) = 7680) \<and>
            (length buf mod 7680 \<noteq> 0 \<longrightarrow>
               last (cutFrames 7680 buf) = drop (length buf div 7680 * 7680) buf \<and>
               length (last (cutFrames 7680 buf)) = length buf mod 7680))"
proof -
  have new: "[] \<notin> set (audioQueue AudioStreamer_new)" "playlist AudioStreamer_new = []"
    by (simp_all add: AudioStreamer_new_def playlist_def)
  have pl: "playlist (deliver cs AudioStreamer_new) =
      concat (map (\<lambda>c. pushFrames [] (pcm16Samples (snd c))) cs)"
    using deliver_playlist [OF new(1), of cs] new(2) by simp
  have cut: "pushFrames [] buf = cutFrames 7680 buf" for buf
    using pushFrames_cutFrames [of buf] by (simp add: bufferSize_def)
  have pl': "playlist (deliver cs AudioStreamer_new) =
      concat (map (\<lambda>c. cutFrames 7680 (pcm16Samples (snd c))) cs)"
    unfolding pl by (simp add: cut)
  have "concat (concat (map (\<lambda>c. pushFrames [] (pcm16Samples (snd c))) cs)) =
      concat (map pcm16Samples (map snd cs))"
    by (induction cs) (simp_all add: pushFrames_frames)
  also have "\<dots> = pcm16Samples (concat (map snd cs))"
    using assms by (simp add: pcm16Samples_concat)
  finally have cc: "concat (playlist (deliver cs AudioStreamer_new)) = pcm16Samples (concat (map snd cs))"
    by (simp add: pl)
  have fr: "\<forall>f \<in> set (playlist (deliver cs AudioStreamer_new)). f \<noteq> [] \<and> length f \<le> bufferSize"
    unfolding pl using pushFrames_frames by auto
  have z: "(0 :: nat) < 7680"
    by simp
  have shape: "length (cutFrames 7680 buf) =
        length buf div 7680 + (if length buf mod 7680 = 0 then 0 else 1) \<and>
      (\<forall>i < length buf div 7680.
         cutFrames 7680 buf ! i = take 7680 (drop (i * 7680) buf) \<and>
         length (cutFrames 7680 buf ! i) = 7680) \<and>
      (length buf mod 7680 \<noteq> 0 \<longrightarrow>
         last (cutFrames 7680 buf) = drop (length buf div 7680 * 7680) buf \<and>
         length (last (cutFrames 7680 buf)) = length buf mod 7680)" for buf :: frame
    using cutFrames_length [OF z, of buf] cutFrames_full [OF z, of _ buf] cutFrames_last [OF z, of buf]
    by blast
  have bs: "bufferSize = 7680"
    by (simp add: bufferSize_def)
  from shape have "\<forall>buf :: frame.
      length (cutFrames 7680 buf) =
        length buf div 7680 + (if length buf mod 7680 = 0 then 0 else 1) \<and>
      (\<forall>i < length buf div 7680.
         cutFrames 7680 buf ! i = take 7680 (drop (i * 7680) buf) \<and>
         length (cutFrames 7680 buf ! i) = 7680) \<and>
      (length buf mod 7680 \<noteq> 0 \<longrightarrow>
         last (cutFrames 7680 buf) = drop (length buf div 7680 * 7680) buf \<and>
         length (last (cutFrames 7680 buf)) = length buf mod 7680)"
    by (rule allI)
  with pl pl' cc fr bs show ?thesis
    by (intro conjI)
qed

theorem chunking_witness:
  "playlist (deliver [(0, replicate 15364 0), (1, [0, 0])] AudioStreamer_new) =
     [replicate 7680 0, replicate 2 0, [0]] \<and>
   concat (playlist (deliver [(0, replicate 15364 0), (1, [0, 0])] AudioStreamer_new)) =
     pcm16Samples (concat (map snd [(0 :: real, replicate 15364 0), (1, [0, 0])])) \<and>
   length (cutFrames 7680 (replicate 7682 (0 :: real)) ! 0) = 7680 \<and>
   length (last (cutFrames 7680 (replicate 7682 (0 :: real)))) = 2"
proof -
  have ev: "\<forall>c \<in> set [(0 :: real, replicate 15364 (0 :: byte)), (1, [0, 0])]. even (length (snd c))"
    by simp
  note inst = chunking [OF ev]
  have z: "pcm16Samples (replicate 15364 0) = replicate 7682 0"
    using pcm16Samples_zeros [of 7682] by simp
  have one: "cutFrames 7680 [0 :: real] = [[0]]"
    by (simp add: cutFrames_def)
  from inst have "playlist (deliver [(0, replicate 15364 0), (1, [0, 0])] AudioStreamer_new) =
      concat (map (\<lambda>c. cutFrames 7680 (pcm16Samples (snd c))) [(0 :: real, replicate 15364 0), (1, [0, 0])])"
    by blast
  then have a: "playlist (deliver [(0, replicate 15364 0), (1, [0, 0])] AudioStreamer_new) =
      [replicate 7680 0, replicate 2 0, [0]]"
    by (simp add: z cutFrames_zeros one getInt16_def)
  from inst have b: "concat (playlist (deliver [(0, replicate 15364 0), (1, [0, 0])] AudioStreamer_new)) =
      pcm16Samples (concat (map snd [(0 :: real, replicate 15364 0), (1, [0, 0])]))"
    by blast
  have "(0 :: nat) < length (replicate 7682 (0 :: real)) div 7680"
    by simp
  with inst have c: "length (cutFrames 7680 (replicate 7682 (0 :: real)) ! 0) = 7680"
    by blast
  have "length (replicate 7682 (0 :: real)) mod 7680 \<noteq> 0"
    by simp
  with inst have "length (last (cutFrames 7680 (replicate 7682 (0 :: real)))) =
      length (replicate 7682 (0 :: real)) mod 7680"
    by blast
  then have d: "length (last (cutFrames 7680 (replicate 7682 (0 :: real)))) = 2"
    by simp
  from a b c d show ?thesis
    by blast
qed

text \<open>
  The claim as it was stated fails: four bytes in one call are one frame of two samples,
  the same bytes in two calls are two frames of one sample; and 15364 bytes in one call
  are frames of 7680 and 2 samples, the same bytes in two calls of 7682 are two frames of
  3841 samples.
\<close>

theorem chunking_counterexample:
  "concat (map snd [(0, [0, 0, 0, 0 :: byte])]) = concat (map snd [(0 :: real, [0, 0]), (0, [0, 0 :: byte])]) \<and>
   playlist (deliver [(0, [0, 0, 0, 0])] AudioStreamer_new) = [[0, 0]] \<and>
   playlist (deliver [(0, [0, 0]), (0, [0, 0])] AudioStreamer_new) = [[0], [0]] \<and>
   playlist (deliver [(0, [0, 0, 0, 0])] AudioStreamer_new) \<noteq>
     playlist (deliver [(0, [0, 0]), (0, [0, 0])] AudioStreamer_new) \<and>
   concat (map snd [(0, replicate 15364 (0 :: byte))]) =
     concat (map snd [(0 :: real, replicate 7682 0), (0, replicate 7682 (0 :: byte))]) \<and>
   playlist (deliver [(0, replicate 15364 0)] AudioStreamer_new) = [replicate 7680 0, replicate 2 0] \<and>
   playlist (deliver [(0, replicate 7682 0), (0, replicate 7682 0)] AudioStreamer_new) =
     [replicate 3841 0, replicate 3841 0]"
proof -
  have new: "[] \<notin> set (audioQueue AudioStreamer_new)" "playlist AudioStreamer_new = []"
    by (simp_all add: AudioStreamer_new_def playlist_def)
  have z: "pcm16Samples (replicate 15364 0) = replicate 7682 0" "pcm16Samples (replicate 7682 0) = replicate 3841 0"
    using pcm16Samples_zeros [of 7682] pcm16Samples_zeros [of 3841] by simp_all
  have small: "playlist (deliver [(0, [0, 0, 0, 0])] AudioStreamer_new) = [[0, 0]]"
    "playlist (deliver [(0, [0, 0]), (0, [0, 0])] AudioStreamer_new) = [[0], [0]]"
    using deliver_playlist [OF new(1), of "[(0, [0, 0, 0, 0])]"]
      deliver_playlist [OF new(1), of "[(0, [0, 0]), (0, [0, 0])]"]
    by (simp_all add: new(2) pushFrames_short bufferSize_def getInt16_def)
  have big: "playlist (deliver [(0, replicate 15364 0)] AudioStreamer_new) = [replicate 7680 0, replicate 2 0]"
    "playlist (deliver [(0, replicate 7682 0), (0, replicate 7682 0)] AudioStreamer_new) =
     [replicate 3841 0, replicate 3841 0]"
    using deliver_playlist [OF new(1), of "[(0, replicate 15364 0)]"]
      deliver_playlist [OF new(1), of "[(0, replicate 7682 0), (0, replicate 7682 0)]"]
    by (simp_all add: new(2) z pushFrames_long pushFrames_short bufferSize_def)
  have "replicate 15364 (0 :: byte) = replicate 7682 0 @ replicate 7682 0"
    by (simp add: replicate_add [symmetric])
  with small big show ?thesis
    by simp
qed

section \<open>Three chunks of 100 ms\<close>

lemma length_pcm16Samples: "length (pcm16Samples chunk) = length chunk div 2"
  by (induction chunk rule: pcm16Samples.induct) simp_all

lemma scheduleOne_succeeds:
  assumes "audioQueue s = f # rest" "f \<noteq> []"
  shows "scheduleOne now Succeeds s =
    (None, s\<lparr>audioQueue := rest,
             started := started s @
               [\<lparr>startTime = max (scheduledTime s) now, scheduledAt = now, audioData = f,
                 destination = gainNode s\<rparr>],
             scheduledTime := max (scheduledTime s) now + real (length f) / real sampleRate\<rparr>)"
  using assms by (simp add: scheduleOne_def Let_def)

lemma scheduleLoop_succeeds:
  assumes "audioQueue s = f # rest" "f \<noteq> []" "scheduledTime s < now + SCHEDULE_AHEAD_TIME"
  shows "scheduleLoop now [] s =
    scheduleLoop now []
      (s\<lparr>audioQueue := rest,
         started := started s @
           [\<lparr>startTime = max (scheduledTime s) now, scheduledAt = now, audioData = f,
             destination = gainNode s\<rparr>],
         scheduledTime := max (scheduledTime s) now + real (length f) / real sampleRate\<rparr>)"
proof -
  have c: "audioQueue s \<noteq> [] \<and> scheduledTime s < now + SCHEDULE_AHEAD_TIME"
    using assms by simp
  have o: "fst (scheduleOne now (nextOutcome []) s) = None"
    by (simp add: nextOutcome_def scheduleOne_succeeds [OF assms(1,2)])
  show ?thesis
    unfolding scheduleLoop_pass [OF c o]
    by (simp add: nextOutcome_def scheduleOne_succeeds [OF assms(1,2)])
qed

lemma three_calls:
  assumes "length c1 = 4800" "length c2 = 4800" "length c3 = 4800"
  shows "deliver [(t1, c1), (t2, c2), (t3, c3)] AudioStreamer_new =
    AudioStreamer_new\<lparr>audioQueue := [pcm16Samples c2, pcm16Samples c3], isPlaying := True,
      checkInterval := True, scheduledTime := t1 + 2 / 10,
      started := [\<lparr>startTime = t1 + 1 / 10, scheduledAt = t1, audioData = pcm16Samples c1, destination = 0\<rparr>]\<rparr>"
proof -
  have l: "length (pcm16Samples c1) = 2400" "length (pcm16Samples c2) = 2400" "length (pcm16Samples c3) = 2400"
    using assms by (simp_all add: length_pcm16Samples)
  then have ne: "pcm16Samples c1 \<noteq> []" "pcm16Samples c2 \<noteq> []" "pcm16Samples c3 \<noteq> []"
    by auto
  have ev: "even (length c1)" "even (length c2)" "even (length c3)"
    using assms by simp_all
  have pf: "pushFrames q (pcm16Samples c1) = q @ [pcm16Samples c1]"
    "pushFrames q (pcm16Samples c2) = q @ [pcm16Samples c2]"
    "pushFrames q (pcm16Samples c3) = q @ [pcm16Samples c3]" for q
    using l ne by (simp_all add: pushFrames_short bufferSize_def)
  show ?thesis
    using ne l ev
    by (simp add: AudioStreamer_new_def addPCM16_def Let_def processPCM16Chunk_def pf
        scheduleNextBuffer_def scheduleLoop_succeeds scheduleLoop_exit
        initialBufferTime_def SCHEDULE_AHEAD_TIME_def sampleRate_def)
qed

lemma two_ticks:
  assumes len: "length c1 = 4800" "length c2 = 4800" "length c3 = 4800"
    and u1: "t1 < u1" "u1 \<le> t1 + 2 / 10" and u2: "t1 + 1 / 10 < u2" "u2 \<le> t1 + 3 / 10"
  shows "startTimes (fires [(u1, [], Interval), (u2, [], Interval)]
            (deliver [(t1, c1), (t2, c2), (t3, c3)] AudioStreamer_new)) =
          [(t1 + 1 / 10, pcm16Samples c1), (t1 + 2 / 10, pcm16Samples c2), (t1 + 3 / 10, pcm16Samples c3)] \<and>
         audioQueue (fires [(u1, [], Interval), (u2, [], Interval)]
            (deliver [(t1, c1), (t2, c2), (t3, c3)] AudioStreamer_new)) = []"
proof -
  have l: "length (pcm16Samples c1) = 2400" "length (pcm16Samples c2) = 2400" "length (pcm16Samples c3) = 2400"
    using len by (simp_all add: length_pcm16Samples)
  then have ne: "pcm16Samples c1 \<noteq> []" "pcm16Samples c2 \<noteq> []" "pcm16Samples c3 \<noteq> []"
    by auto
  show ?thesis
  proof (cases "u1 \<le> t1 + 1 / 10")
    case True
    with ne l u1 u2 show ?thesis
      unfolding three_calls [OF len]
      by (simp add: AudioStreamer_new_def startTimes_def fire_def scheduleNextBuffer_def
          scheduleLoop_succeeds scheduleLoop_exit SCHEDULE_AHEAD_TIME_def sampleRate_def)
  next
    case False
    with ne l u1 u2 show ?thesis
      unfolding three_calls [OF len]
      by (simp add: AudioStreamer_new_def startTimes_def fire_def scheduleNextBuffer_def
          scheduleLoop_succeeds scheduleLoop_exit SCHEDULE_AHEAD_TIME_def sampleRate_def)
  qed
qed

text \<open>
  C9 (amended). Three calls of \<open>addPCM16\<close> on a new streamer, each with 4800 bytes, the
  first at the clock \<open>t1\<close>: three frames of 2400 samples (100 ms at 24 kHz) are handed to
  playback in order. The first call starts the first at \<open>t1 + initialBufferTime\<close> and
  starts no other; the other two wait in the queue for the interval's callback. When that
  runs at a clock \<open>u1\<close> with \<open>t1 < u1 \<le> t1 + 0.2\<close> (before the scheduled clock has fallen
  behind) and again at \<open>u2\<close> with \<open>t1 + 0.1 < u2 \<le> t1 + 0.3\<close>, the second frame starts at
  \<open>t1 + initialBufferTime + 0.1\<close> and the third at \<open>t1 + initialBufferTime + 0.2\<close>. In
  general a frame that is started moves the scheduled clock to the later of the scheduled
  clock and the audio clock, plus the frame's duration: by exactly the duration when the
  scheduled clock was not behind the audio clock, and to the audio clock plus the duration
  when it was.
\<close>

theorem three_chunks_schedule:
  assumes len: "length c1 = 4800" "length c2 = 4800" "length c3 = 4800"
    and u1: "t1 < u1" "u1 \<le> t1 + 2 / 10" and u2: "t1 + 1 / 10 < u2" "u2 \<le> t1 + 3 / 10"
  shows "playlist (deliver [(t1, c1), (t2, c2), (t3, c3)] AudioStreamer_new) =
           [pcm16Samples c1, pcm16Samples c2, pcm16Samples c3] \<and>
         map length [pcm16Samples c1, pcm16Samples c2, pcm16Samples c3] = [2400, 2400, 2400] \<and>
         startTimes (deliver [(t1, c1), (t2, c2), (t3, c3)] AudioStreamer_new) =
           [(t1 + initialBufferTime, pcm16Samples c1)] \<and>
         startTimes (fires [(u1, [], Interval), (u2, [], Interval)]
            (deliver [(t1, c1), (t2, c2), (t3, c3)] AudioStreamer_new)) =
           [(t1 + initialBufferTime, pcm16Samples c1),
            (t1 + initialBufferTime + 1 / 10, pcm16Samples c2),
            (t1 + initialBufferTime + 2 / 10, pcm16Samples c3)] \<and>
         (\<forall>s now f rest. audioQueue s = f # rest \<and> f \<noteq> [] \<longrightarrow>
            scheduledTime (snd (scheduleOne now Succeeds s)) =
              max (scheduledTime s) now + real (length f) / real sampleRate \<and>
            (now \<le> scheduledTime s \<longrightarrow>
               scheduledTime (snd (scheduleOne now Succeeds s)) =
                 scheduledTime s + real (length f) / real sampleRate) \<and>
            (scheduledTime s < now \<longrightarrow>
               scheduledTime (snd (scheduleOne now Succeeds s)) =
                 now + real (length f) / real sampleRate))"
proof -
  have "map length [pcm16Samples c1, pcm16Samples c2, pcm16Samples c3] = [2400, 2400, 2400]"
    using len by (simp add: length_pcm16Samples)
  moreover have "playlist (deliver [(t1, c1), (t2, c2), (t3, c3)] AudioStreamer_new) =
      [pcm16Samples c1, pcm16Samples c2, pcm16Samples c3]"
    unfolding three_calls [OF len] by (simp add: playlist_def AudioStreamer_new_def)
  moreover have "startTimes (deliver [(t1, c1), (t2, c2), (t3, c3)] AudioStreamer_new) =
      [(t1 + initialBufferTime, pcm16Samples c1)]"
    unfolding three_calls [OF len] by (simp add: startTimes_def initialBufferTime_def)
  moreover have "scheduledTime (snd (scheduleOne now Succeeds s)) =
      max (scheduledTime s) now + real (length f) / real sampleRate"
    if "audioQueue s = f # rest" "f \<noteq> []" for s now f rest
    by (simp add: scheduleOne_succeeds [OF that])
  ultimately show ?thesis
    using two_ticks [OF len u1 u2, of t2 t3] by (simp add: initialBufferTime_def max_def)
qed

theorem three_chunks_schedule_witness:
  "startTimes (fires [(1 / 10, [], Interval), (2 / 10, [], Interval)]
      (deliver [(0, replicate 4800 0), (0, replicate 4800 0), (0, replicate 4800 0)] AudioStreamer_new)) =
     [(1 / 10, replicate 2400 0), (2 / 10, replicate 2400 0), (3 / 10, replicate 2400 0)] \<and>
   scheduledTime (snd (scheduleOne 0 Succeeds
      (AudioStreamer_new\<lparr>audioQueue := [replicate 2400 0], scheduledTime := 1\<rparr>))) = 1 + 1 / 10 \<and>
   scheduledTime (snd (scheduleOne 2 Succeeds
      (AudioStreamer_new\<lparr>audioQueue := [replicate 2400 0], scheduledTime := 1\<rparr>))) = 2 + 1 / 10"
proof -
  let ?s = "AudioStreamer_new\<lparr>audioQueue := [replicate 2400 0], scheduledTime := 1\<rparr>"
  have z: "pcm16Samples (replicate 4800 0) = replicate 2400 0"
    using pcm16Samples_zeros [of 2400] by simp
  have l: "length (replicate 4800 (0 :: byte)) = 4800"
    by simp
  have b: "(0 :: real) < 1 / 10" "(1 :: real) / 10 \<le> 0 + 2 / 10"
    "(0 :: real) + 1 / 10 < 2 / 10" "(2 :: real) / 10 \<le> 0 + 3 / 10"
    by simp_all
  note inst = three_chunks_schedule [OF l l l b, of 0 0]
  have q: "audioQueue ?s = replicate 2400 0 # [] \<and> replicate 2400 (0 :: real) \<noteq> []"
    by simp
  have "0 \<le> scheduledTime ?s"
    by simp
  with inst q have "scheduledTime (snd (scheduleOne 0 Succeeds ?s)) =
      scheduledTime ?s + real (length (replicate 2400 (0 :: real))) / real sampleRate"
    by blast
  then have "scheduledTime (snd (scheduleOne 0 Succeeds ?s)) = 1 + 1 / 10"
    by (simp add: sampleRate_def)
  moreover have "scheduledTime ?s < 2"
    by simp
  with inst q have "scheduledTime (snd (scheduleOne 2 Succeeds ?s)) =
      2 + real (length (replicate 2400 (0 :: real))) / real sampleRate"
    by blast
  then have "scheduledTime (snd (scheduleOne 2 Succeeds ?s)) = 2 + 1 / 10"
    by (simp add: sampleRate_def)
  moreover from inst have "startTimes (fires [(1 / 10, [], Interval), (2 / 10, [], Interval)]
      (deliver [(0, replicate 4800 0), (0, replicate 4800 0), (0, replicate 4800 0)] AudioStreamer_new)) =
     [(1 / 10, replicate 2400 0), (2 / 10, replicate 2400 0), (3 / 10, replicate 2400 0)]"
    unfolding z by (simp add: initialBufferTime_def)
  ultimately show ?thesis
    by blast
qed

text \<open>
  The claim as it was stated fails. The three calls alone start only the first frame. When
  the interval's callback is late, at 0.25 s after the first call, the second frame starts
  at 0.25 s and the third at 0.35 s, not at 0.2 s and 0.3 s. And a frame started while the
  scheduled clock (1) is behind the audio clock (5) moves the scheduled clock to 5.1, by
  more than the frame's 0.1 s.
\<close>

theorem three_chunks_schedule_counterexample:
  "startTimes (deliver [(0, replicate 4800 0), (0, replicate 4800 0), (0, replicate 4800 0)]
      AudioStreamer_new) = [(1 / 10, replicate 2400 0)] \<and>
   startTimes (fires [(1 / 4, [], Interval), (1 / 2, [], Interval)]
      (deliver [(0, replicate 4800 0), (0, replicate 4800 0), (0, replicate 4800 0)] AudioStreamer_new)) =
     [(1 / 10, replicate 2400 0), (1 / 4, replicate 2400 0), (7 / 20, replicate 2400 0)] \<and>
   scheduledTime (AudioStreamer_new\<lparr>audioQueue := [replicate 2400 0], scheduledTime := 1\<rparr>) = 1 \<and>
   scheduledTime (snd (scheduleOne 5 Succeeds
      (AudioStreamer_new\<lparr>audioQueue := [replicate 2400 0], scheduledTime := 1\<rparr>))) = 5 + 1 / 10"
proof -
  have z: "pcm16Samples (replicate 4800 0) = replicate 2400 0"
    using pcm16Samples_zeros [of 2400] by simp
  have l: "length (replicate 4800 (0 :: byte)) = 4800"
    by simp
  have a: "startTimes (deliver [(0, replicate 4800 0), (0, replicate 4800 0), (0, replicate 4800 0)]
      AudioStreamer_new) = [(1 / 10, replicate 2400 0)]"
    unfolding three_calls [OF l l l] by (simp add: startTimes_def z)
  have b: "startTimes (fires [(1 / 4, [], Interval), (1 / 2, [], Interval)]
      (deliver [(0, replicate 4800 0), (0, replicate 4800 0), (0, replicate 4800 0)] AudioStreamer_new)) =
     [(1 / 10, replicate 2400 0), (1 / 4, replicate 2400 0), (7 / 20, replicate 2400 0)]"
    unfolding three_calls [OF l l l]
    by (simp add: z AudioStreamer_new_def startTimes_def fire_def scheduleNextBuffer_def
        scheduleLoop_succeeds scheduleLoop_exit SCHEDULE_AHEAD_TIME_def sampleRate_def)
  have c: "scheduledTime (snd (scheduleOne 5 Succeeds
      (AudioStreamer_new\<lparr>audioQueue := [replicate 2400 0], scheduledTime := 1\<rparr>))) = 5 + 1 / 10"
    by (simp add: scheduleOne_succeeds [of _ "replicate 2400 0" "[]"] sampleRate_def)
  from a b c show ?thesis
    by simp
qed

section \<open>Starting and stopping the recorder\<close>

lemma start_ok:
  "AudioRecorder_start True True r =
     (Inr (length (promises r)),
      r\<lparr>promises := promises r @ [\<lparr>waitsAt = Some AwaitUserMedia, settled = None, reactions = 0\<rparr>],
        getUserMediaCalls := Suc (getUserMediaCalls r),
        starting := Some (length (promises r))\<rparr>)"
  by (simp add: AudioRecorder_start_def)

lemma starts_calls: "getUserMediaCalls (starts n r) = getUserMediaCalls r + n"
  by (induction n arbitrary: r) (simp_all add: start_ok)

text \<open>
  C8. A call of \<open>start\<close> returns a pending promise, and when \<open>getUserMedia\<close> then rejects
  with an error (access denied, no device found) the promise is rejected with that error,
  \<open>starting\<close> is cleared, and the stream, the source and its connections, the worklets,
  the recording flag and the live tracks are what they were before the call: nothing was
  attached. A new recorder is idle and is idle again after the rejection. Where the
  platform has no \<open>getUserMedia\<close>, \<open>start\<close> fails at once and changes nothing.
\<close>

theorem start_denied:
  "fst (AudioRecorder_start True True r) = Inr (length (promises r)) \<and>
   (let r' = continue (length (promises r)) (Rejects e) (snd (AudioRecorder_start True True r))
    in settled (promises r' ! length (promises r)) = Some (Rejected e) \<and>
       starting r' = None \<and> stream r' = stream r \<and> source r' = source r \<and>
       sourceOutputs r' = sourceOutputs r \<and> recording r' = recording r \<and>
       recordingWorklet r' = recordingWorklet r \<and> vuWorklet r' = vuWorklet r \<and>
       liveTracks r' = liveTracks r \<and> teardowns r' = teardowns r) \<and>
   idle AudioRecorder_new \<and>
   idle (continue 0 (Rejects e) (snd (AudioRecorder_start True True AudioRecorder_new))) \<and>
   AudioRecorder_start True False r = (Inl (Error ''Could not request user media''), r)"
  by (simp add: start_ok continue_def finish_def idle_def AudioRecorder_new_def Let_def nth_append
      AudioRecorder_start_def)

text \<open>
  C7 (amended). Every call of \<open>start\<close> calls \<open>getUserMedia\<close> once and makes a promise of
  its own, which replaces the one in \<open>starting\<close>: \<open>n\<close> calls that overlap acquire \<open>n\<close>
  times. One \<open>start\<close> on a new recorder followed by \<open>stop\<close> before it has settled
  acquires once and tears nothing down yet; when the start then succeeds, \<open>handleStop\<close>
  runs once, stops the stream's tracks and leaves no stream, no connection and no
  recording.
\<close>

theorem start_acquires:
  "getUserMediaCalls (snd (AudioRecorder_start True True r)) = Suc (getUserMediaCalls r) \<and>
   fst (AudioRecorder_start True True r) = Inr (length (promises r)) \<and>
   starting (snd (AudioRecorder_start True True r)) = Some (length (promises r)) \<and>
   length (promises (snd (AudioRecorder_start True True r))) = Suc (length (promises r)) \<and>
   getUserMediaCalls (starts n r) = getUserMediaCalls r + n \<and>
   (let r1 = AudioRecorder_stop (snd (AudioRecorder_start True True AudioRecorder_new));
        r2 = settle 0 [Resolves sid, Resolves a, Resolves b] r1;
        r3 = continue 0 (Resolves c) r2
    in getUserMediaCalls r1 = 1 \<and> teardowns r1 = 0 \<and>
       teardowns r2 = 0 \<and> liveTracks r2 = [sid] \<and> stream r2 = Some sid \<and>
       getUserMediaCalls r3 = 1 \<and> teardowns r3 = 1 \<and> stoppedTracks r3 = [sid] \<and>
       liveTracks r3 = [] \<and> stream r3 = None \<and> sourceOutputs r3 = 0 \<and>
       recording r3 = False \<and> recordingWorklet r3 = False \<and> vuWorklet r3 = False \<and>
       starting r3 = None \<and> settled (promises r3 ! 0) = Some Fulfilled)"
  by (simp add: start_ok starts_calls AudioRecorder_stop_def settle_def continue_def finish_def
      waitAt_def handleStop_def idle_def AudioRecorder_new_def Let_def)

text \<open>
  The claim as it was stated fails: two calls of \<open>start\<close> on a new recorder, the second
  before anything has settled, return two promises and call \<open>getUserMedia\<close> twice.
\<close>

theorem start_acquires_counterexample:
  "fst (AudioRecorder_start True True AudioRecorder_new) = Inr 0 \<and>
   fst (AudioRecorder_start True True (snd (AudioRecorder_start True True AudioRecorder_new))) = Inr 1 \<and>
   getUserMediaCalls (snd (AudioRecorder_start True True
      (snd (AudioRecorder_start True True AudioRecorder_new)))) = 2"
  by (simp add: start_ok AudioRecorder_new_def)

end
